theory Spec2Isabelle
  imports Main "HOL-Library.Word"
begin

unbundle bit_operations_syntax

section \<open>png2gba: data model\<close>

text \<open>
  The C types of \<^verbatim>\<open>png2gba.c\<close>: \<^verbatim>\<open>unsigned char\<close> and \<^verbatim>\<open>png_byte\<close> are 8-bit words,
  \<^verbatim>\<open>unsigned short\<close> is a 16-bit word. A C \<^verbatim>\<open>int\<close> is modelled by a HOL integer: every
  \<^verbatim>\<open>int\<close> the modelled code computes is a value promoted from an 8-bit or 16-bit
  operand, a loop counter up to 256, or a cursor coordinate, which a step changes by at
  most 8 and which the traversals proved below keep between 0 and the width or height
  of the image, so no \<^verbatim>\<open>int\<close> operation wraps around there.
\<close>

type_synonym u8 = "8 word"
type_synonym u16 = "16 word"

text \<open>
  \<^verbatim>\<open>struct Palette { unsigned short colors[PALETTE_MAX]; unsigned char used;
  unsigned char max; }\<close>. The array is a function from the slot number; the slots the
  program has are those below \<open>PALETTE_MAX\<close>. The field \<^verbatim>\<open>max\<close> is called \<open>max_p\<close> here
  since \<open>max\<close> is the maximum of two values in HOL.
\<close>

definition PALETTE_MAX :: nat where
  "PALETTE_MAX = 256"

definition TILE_SIZE :: int where
  "TILE_SIZE = 8"

record Palette =
  colors :: "nat \<Rightarrow> u16"
  used :: u8
  max_p :: u8

text \<open>
  \<^verbatim>\<open>struct Image\<close>. The rows are the byte buffers the decoder allocated: one list of
  bytes for each row. Reading a byte outside them is undefined in C; the model gives
  \<open>None\<close> for such a read (\<open>pixel_at\<close> below).
\<close>

record Image =
  width :: int
  height :: int
  channels :: int
  color_type :: u8
  bit_depth :: u8
  rows :: "u8 list list"

text \<open>The ways a run ends in \<^verbatim>\<open>exit(-1)\<close>, and the undefined read outside the image.\<close>

datatype error =
    NoInputSpecified
  | BadPaletteSize
  | PaletteOverflow
  | OutOfBoundsRead

section \<open>Color quantization\<close>

text \<open>
  Lines 262 to 264 of \<^verbatim>\<open>png2gba\<close>:
  \<^verbatim>\<open>unsigned short color = (blue >> 3) << 10; color += (green >> 3) << 5;
  color += (red >> 3);\<close>
  The operands \<^verbatim>\<open>red\<close>, \<^verbatim>\<open>green\<close>, \<^verbatim>\<open>blue\<close> are \<^verbatim>\<open>unsigned char\<close>; C promotes them to
  \<^verbatim>\<open>int\<close> (\<open>uint\<close>), shifts there, and each assignment to \<^verbatim>\<open>color\<close> truncates to
  16 bits (\<open>word_of_int\<close>).
\<close>

definition quantize :: "u8 \<Rightarrow> u8 \<Rightarrow> u8 \<Rightarrow> u16" where
  "quantize red green blue =
     (let color = (word_of_int (push_bit 10 (drop_bit 3 (uint blue))) :: u16);
          color = (word_of_int (uint color + push_bit 5 (drop_bit 3 (uint green))) :: u16);
          color = (word_of_int (uint color + drop_bit 3 (uint red)) :: u16)
      in color)"

section \<open>Palette insertion\<close>

text \<open>
  The scan of \<^verbatim>\<open>insert_palette\<close>:
  \<^verbatim>\<open>for (i = 0; i < palette->used; i++) if (palette->colors[i] == color) return i;\<close>
  with \<^verbatim>\<open>unsigned char i\<close>. The counter is below \<^verbatim>\<open>used\<close>, so \<^verbatim>\<open>i++\<close> never wraps.
\<close>

function palette_scan :: "u16 \<Rightarrow> Palette \<Rightarrow> u8 \<Rightarrow> u8 option" where
  "palette_scan color pal i =
     (if i < used pal
      then (if colors pal (unat i) = color then Some i
            else palette_scan color pal (i + 1))
      else None)"
  by pat_completeness auto
termination
proof (relation "measure (\<lambda>(color, pal, i). unat (used pal) - unat i)")
  show "wf (measure (\<lambda>(color, pal, i). unat (used pal) - unat i))"
    by simp
next
  fix color :: u16 and pal :: Palette and i :: u8
  assume lt: "i < used pal"
  then have "unat i < unat (used pal)"
    by (simp add: word_less_nat_alt)
  moreover have "unat (used pal) < 2 ^ 8"
    using unsigned_less [of "used pal"] by simp
  ultimately have "unat i + unat (1::u8) < 2 ^ LENGTH(8)"
    by simp
  then have "unat (i + 1) = unat i + 1"
    using unat_add_lem [of i 1] by simp
  moreover note \<open>unat i < unat (used pal)\<close>
  ultimately show "((color, pal, i + 1), (color, pal, i))
      \<in> measure (\<lambda>(color, pal, i). unat (used pal) - unat i)"
    by simp
qed

declare palette_scan.simps [simp del]

text \<open>
  \<^verbatim>\<open>insert_palette\<close>, with \<open>pal\<close> for the structure \<^verbatim>\<open>*palette\<close>. The test
  \<^verbatim>\<open>palette->used >= (palette->max - 1)\<close> is made on
  \<^verbatim>\<open>int\<close>: both \<^verbatim>\<open>unsigned char\<close> operands are promoted, so \<^verbatim>\<open>max - 1\<close> is \<open>-1\<close> when
  \<^verbatim>\<open>max\<close> is 0. \<^verbatim>\<open>exit(-1)\<close> is the error \<open>PaletteOverflow\<close>. The store goes to slot
  \<^verbatim>\<open>palette->used - 1\<close>, again an \<^verbatim>\<open>int\<close>, of the incremented \<^verbatim>\<open>used\<close>; the returned
  \<^verbatim>\<open>unsigned char\<close> is that \<^verbatim>\<open>int\<close> truncated to 8 bits. The test lets the store happen
  only when \<^verbatim>\<open>used\<close> is below 254, so the slot is the former \<^verbatim>\<open>used\<close>, inside the array
  (lemma \<open>insert_palette_appended\<close>). The result is the returned index with the palette
  after the call.
\<close>

definition insert_palette :: "u16 \<Rightarrow> Palette \<Rightarrow> error + (u8 \<times> Palette)" where
  "insert_palette color pal =
     (case palette_scan color pal 0 of
        Some i \<Rightarrow> Inr (i, pal)
      | None \<Rightarrow>
          if uint (used pal) \<ge> uint (max_p pal) - 1 then Inl PaletteOverflow
          else
            let used' = used pal + 1;
                slot = uint used' - 1
            in Inr (word_of_int slot,
                    pal\<lparr>colors := (colors pal)(nat slot := color), used := used'\<rparr>))"

section \<open>Traversal\<close>

text \<open>
  The four \<^verbatim>\<open>static int\<close> variables \<^verbatim>\<open>r\<close>, \<^verbatim>\<open>c\<close>, \<^verbatim>\<open>tr\<close>, \<^verbatim>\<open>tc\<close> of \<^verbatim>\<open>next_byte\<close>, each
  initialised to 0. They are the fields \<open>cur_r\<close>, \<open>cur_c\<close>, \<open>cur_tr\<close>, \<open>cur_tc\<close> of
  an explicit state that every call takes and returns.
\<close>

record Cursor =
  cur_r :: int
  cur_c :: int
  cur_tr :: int
  cur_tc :: int

definition cursor_start :: Cursor where
  "cursor_start = \<lparr>cur_r = 0, cur_c = 0, cur_tr = 0, cur_tc = 0\<rparr>"

text \<open>
  \<^verbatim>\<open>next_byte\<close>. The returned pointer \<^verbatim>\<open>&(image->rows[r][c * image->channels])\<close> is
  the position \<open>(r, c)\<close> of the pixel it points to, \<^verbatim>\<open>NULL\<close> is \<open>None\<close>; the bytes are
  read by the caller (\<open>pixel_at\<close>). The flag \<^verbatim>\<open>tileize\<close> is a C \<^verbatim>\<open>int\<close>, tested for 0.
\<close>

definition next_byte :: "Image \<Rightarrow> int \<Rightarrow> Cursor \<Rightarrow> (int \<times> int) option \<times> Cursor" where
  "next_byte img tileize cur =
     (if cur_r cur = height img then (None, cur)
      else
        let ptr = (cur_r cur, cur_c cur) in
        if tileize = 0 then
          (let c = cur_c cur + 1 in
           if c \<ge> width img
           then (Some ptr, cur\<lparr>cur_r := cur_r cur + 1, cur_c := 0\<rparr>)
           else (Some ptr, cur\<lparr>cur_c := c\<rparr>))
        else
          (let c = cur_c cur + 1;
               tc = cur_tc cur + 1 in
           if tc \<ge> 8 then
             (let r = cur_r cur + 1;
                  tr = cur_tr cur + 1;
                  c = c - 8;
                  tc = 0;
                  (r, tr, c) = (if tr \<ge> 8 then (r - 8, 0, c + 8) else (r, tr, c)) in
              if c \<ge> width img
              then (Some ptr, \<lparr>cur_r = r + 8, cur_c = 0, cur_tr = 0, cur_tc = 0\<rparr>)
              else (Some ptr, \<lparr>cur_r = r, cur_c = c, cur_tr = tr, cur_tc = tc\<rparr>))
           else (Some ptr, cur\<lparr>cur_c := c, cur_tc := tc\<rparr>)))"

text \<open>
  The positions that the loop \<^verbatim>\<open>while ((ptr = next_byte(image, tileize)))\<close> of
  \<^verbatim>\<open>png2gba\<close> receives, in order, up to the first \<^verbatim>\<open>NULL\<close>. The loop has no bound of
  its own (a negative height never equals \<^verbatim>\<open>r\<close>), so the model counts calls down from
  \<open>fuel\<close> and \<open>None\<close> says that \<^verbatim>\<open>NULL\<close> was not returned within that many calls.
\<close>

fun traverse :: "nat \<Rightarrow> Image \<Rightarrow> int \<Rightarrow> Cursor \<Rightarrow> (int \<times> int) list option" where
  "traverse 0 img tileize cur = None"
| "traverse (Suc fuel) img tileize cur =
     (case next_byte img tileize cur of
        (None, cur') \<Rightarrow> Some []
      | (Some ptr, cur') \<Rightarrow> map_option ((#) ptr) (traverse fuel img tileize cur'))"

text \<open>
  The reads \<^verbatim>\<open>ptr[0]\<close>, \<^verbatim>\<open>ptr[1]\<close>, \<^verbatim>\<open>ptr[2]\<close> of \<^verbatim>\<open>png2gba\<close> through the pointer to
  position \<open>(r, c)\<close>: bytes \<open>c * channels\<close>, \<open>+ 1\<close>, \<open>+ 2\<close> of row \<open>r\<close>. A read outside
  the rows, or outside the row's bytes, is \<open>None\<close>.
\<close>

definition byte_at :: "Image \<Rightarrow> int \<Rightarrow> int \<Rightarrow> u8 option" where
  "byte_at img r k =
     (if 0 \<le> r \<and> nat r < length (rows img) \<and> 0 \<le> k \<and> nat k < length (rows img ! nat r)
      then Some (rows img ! nat r ! nat k) else None)"

definition pixel_at :: "Image \<Rightarrow> int \<times> int \<Rightarrow> (u8 \<times> u8 \<times> u8) option" where
  "pixel_at img ptr =
     (case byte_at img (fst ptr) (snd ptr * channels img) of
        None \<Rightarrow> None
      | Some red \<Rightarrow>
         (case byte_at img (fst ptr) (snd ptr * channels img + 1) of
            None \<Rightarrow> None
          | Some green \<Rightarrow>
             (case byte_at img (fst ptr) (snd ptr * channels img + 2) of
                None \<Rightarrow> None
              | Some blue \<Rightarrow> Some (red, green, blue))))"

section \<open>The colorkey\<close>

text \<open>
  The C library's \<^verbatim>\<open>strtol(s, NULL, 16)\<close>, after the C standard: the string ends at its
  first NUL; white space is skipped, then an optional sign, then an optional \<^verbatim>\<open>0x\<close>
  or \<^verbatim>\<open>0X\<close> in front of a hexadecimal digit, then the longest run of hexadecimal
  digits; no digit gives 0. The buffers of \<^verbatim>\<open>hex24_to_15\<close> hold two characters, so the
  value is between \<open>-15\<close> and 255 and the clamp to the range of \<^verbatim>\<open>long\<close> never applies.
\<close>

definition hex_value :: "char \<Rightarrow> int option" where
  "hex_value ch =
     (let n = of_char ch :: nat in
      if 48 \<le> n \<and> n \<le> 57 then Some (int n - 48)
      else if 97 \<le> n \<and> n \<le> 102 then Some (int n - 87)
      else if 65 \<le> n \<and> n \<le> 70 then Some (int n - 55)
      else None)"

definition isspace :: "char \<Rightarrow> bool" where
  "isspace ch = (ch \<in> {CHR 0x20, CHR 0x09, CHR 0x0A, CHR 0x0B, CHR 0x0C, CHR 0x0D})"

fun digits_value :: "int \<Rightarrow> string \<Rightarrow> int" where
  "digits_value acc [] = acc"
| "digits_value acc (ch # s) =
     (case hex_value ch of
        None \<Rightarrow> acc
      | Some d \<Rightarrow> digits_value (acc * 16 + d) s)"

definition strtol16 :: "string \<Rightarrow> int" where
  "strtol16 nptr =
     (let s = dropWhile isspace (takeWhile (\<lambda>ch. ch \<noteq> CHR 0x00) nptr);
          neg = (case s of [] \<Rightarrow> False | ch # t \<Rightarrow> ch = CHR ''-'');
          s = (case s of [] \<Rightarrow> [] | ch # t \<Rightarrow> if ch = CHR ''-'' \<or> ch = CHR ''+'' then t else s);
          s = (case s of
                 z # x # d # t \<Rightarrow>
                   if z = CHR ''0'' \<and> (x = CHR ''x'' \<or> x = CHR ''X'') \<and> hex_value d \<noteq> None
                   then d # t else s
               | _ \<Rightarrow> s);
          v = digits_value 0 s
      in if neg then - v else v)"

text \<open>
  A C string is the characters before its terminating NUL: \<open>c_char s i\<close> is the
  character at index \<open>i\<close>, NUL at index \<open>length s\<close>, and nothing beyond (a read there is
  outside the string's buffer).
\<close>

definition c_char :: "string \<Rightarrow> nat \<Rightarrow> char option" where
  "c_char s i = (if i < length s then Some (s ! i) else if i = length s then Some (CHR 0x00) else None)"

text \<open>
  \<^verbatim>\<open>hex24_to_15\<close>: skips the first character without looking at it, copies the next six
  into three two-character buffers, converts each with \<^verbatim>\<open>strtol\<close> to an \<^verbatim>\<open>int\<close> and
  packs as the quantizer does. A string of fewer than six characters is read beyond its
  NUL, which is \<open>OutOfBoundsRead\<close> here. The shifts are those of HOL integers, which for
  the values of two hexadecimal digits are C's.
\<close>

definition hex24_to_15 :: "string \<Rightarrow> error + u16" where
  "hex24_to_15 hex24 =
     (case those (map (c_char hex24) [1, 2, 3, 4, 5, 6]) of
        None \<Rightarrow> Inl OutOfBoundsRead
      | Some chs \<Rightarrow>
          let rs = [chs ! 0, chs ! 1];
              gs = [chs ! 2, chs ! 3];
              bs = [chs ! 4, chs ! 5];
              r = strtol16 rs;
              g = strtol16 gs;
              b = strtol16 bs;
              color = (word_of_int (push_bit 10 (drop_bit 3 b)) :: u16);
              color = (word_of_int (uint color + push_bit 5 (drop_bit 3 g)) :: u16);
              color = (word_of_int (uint color + drop_bit 3 r) :: u16)
          in Inr color)"

section \<open>Conversion and output\<close>

text \<open>
  The output file is the sequence of the \<^verbatim>\<open>fprintf\<close> calls made on it: \<open>Text\<close> for a
  call with constant text, \<open>Hex04X\<close> for \<^verbatim>\<open>fprintf(out, "0x%04X", color)\<close>, \<open>Hex02X\<close> for
  \<^verbatim>\<open>fprintf(out, "0x%02X", index)\<close> and \<open>Hex04x\<close> for \<^verbatim>\<open>fprintf(out, "0x%04x", ...)\<close>.
  \<open>render\<close> is the text a call writes: the argument is below \<open>16 ^ 4\<close> (\<open>16 ^ 2\<close>), so
  the zero-padded field of minimum width 4 (2) has exactly that many digits, upper case
  for \<^verbatim>\<open>X\<close> and lower case for \<^verbatim>\<open>x\<close>; \<open>hex_digit\<close> is applied to numbers below 16 only.
\<close>

datatype fprintf_call =
    Text string
  | Hex04X u16
  | Hex02X u8
  | Hex04x u16

definition hex_digit :: "bool \<Rightarrow> nat \<Rightarrow> char" where
  "hex_digit upper n = (if upper then ''0123456789ABCDEF'' else ''0123456789abcdef'') ! n"

definition hex_field :: "bool \<Rightarrow> nat \<Rightarrow> nat \<Rightarrow> string" where
  "hex_field upper digits n =
     map (\<lambda>k. hex_digit upper ((n div 16 ^ k) mod 16)) (rev [0..<digits])"

fun render :: "fprintf_call \<Rightarrow> string" where
  "render (Text s) = s"
| "render (Hex04X w) = ''0x'' @ hex_field True 4 (unat w)"
| "render (Hex02X w) = ''0x'' @ hex_field True 2 (unat w)"
| "render (Hex04x w) = ''0x'' @ hex_field False 4 (unat w)"

definition file_text :: "fprintf_call list \<Rightarrow> string" where
  "file_text ws = concat (map render ws)"

text \<open>
  The state of a conversion: the cursor of \<^verbatim>\<open>next_byte\<close>, the palette that \<^verbatim>\<open>main\<close>
  created (\<open>color_palette\<close>), the local \<^verbatim>\<open>colors_this_line\<close> and the writes made so far.
  \<^verbatim>\<open>png2gba\<close> names the image and the palette \<^verbatim>\<open>image\<close>, \<^verbatim>\<open>color_palette\<close> and
  \<^verbatim>\<open>palette_size\<close> without declaring them; they are taken to be the image that
  \<^verbatim>\<open>main\<close> read and the \<^verbatim>\<open>colors\<close> and \<^verbatim>\<open>used\<close> of the palette that \<^verbatim>\<open>main\<close> created,
  and \<^verbatim>\<open>insert_palette(color, color_palette, &palette_size)\<close> to be \<open>insert_palette\<close> on
  that palette.
\<close>

record State =
  cursor :: Cursor
  color_palette :: Palette
  colors_this_line :: int
  out :: "fprintf_call list"

text \<open>
  One turn of the loop of \<^verbatim>\<open>png2gba\<close> for the pixel at \<open>ptr\<close>: read, quantize, write
  the leading space, the value (the color, or the index that \<open>insert_palette\<close> returns),
  the separator, and the line break after \<open>TILE_SIZE\<close> values.
\<close>

definition pixel_body :: "Image \<Rightarrow> int \<Rightarrow> int \<times> int \<Rightarrow> State \<Rightarrow> error + State" where
  "pixel_body img palette ptr st =
     (case pixel_at img ptr of
        None \<Rightarrow> Inl OutOfBoundsRead
      | Some (red, green, blue) \<Rightarrow>
         (let color = quantize red green blue;
              out1 = (if colors_this_line st = 0 then out st @ [Text ''    ''] else out st);
              printed = (if palette = 0 then Inr (Hex04X color, color_palette st)
                         else (case insert_palette color (color_palette st) of
                                 Inl e \<Rightarrow> Inl e
                               | Inr (index, pal') \<Rightarrow> Inr (Hex02X index, pal')))
          in (case printed of
                Inl e \<Rightarrow> Inl e
              | Inr (w, pal') \<Rightarrow>
                 (let out2 = out1 @ [w, Text '', ''];
                      n = colors_this_line st + 1
                  in if n \<ge> TILE_SIZE
                     then Inr (st\<lparr>color_palette := pal', colors_this_line := 0,
                                  out := out2 @ [Text ''\<newline>'']\<rparr>)
                     else Inr (st\<lparr>color_palette := pal', colors_this_line := n, out := out2\<rparr>)))))"

fun png2gba_loop :: "nat \<Rightarrow> Image \<Rightarrow> int \<Rightarrow> int \<Rightarrow> State \<Rightarrow> (error + State) option" where
  "png2gba_loop 0 img palette tileize st = None"
| "png2gba_loop (Suc fuel) img palette tileize st =
     (case next_byte img tileize (cursor st) of
        (None, cur') \<Rightarrow> Some (Inr (st\<lparr>cursor := cur'\<rparr>))
      | (Some ptr, cur') \<Rightarrow>
          (case pixel_body img palette ptr (st\<lparr>cursor := cur'\<rparr>) of
             Inl e \<Rightarrow> Some (Inl e)
           | Inr st' \<Rightarrow> png2gba_loop fuel img palette tileize st'))"

text \<open>
  The loop \<^verbatim>\<open>for (i = 0; i < PALETTE_MAX; i++)\<close> that writes the palette table, with its
  own \<^verbatim>\<open>colors_this_line\<close>: \<open>n\<close> here.
\<close>

function palette_table :: "Palette \<Rightarrow> int \<Rightarrow> int \<Rightarrow> fprintf_call list \<Rightarrow> fprintf_call list" where
  "palette_table p i n ws =
     (if i < int PALETTE_MAX then
        let ws = (if n = 0 then ws @ [Text ''    ''] else ws);
            ws = ws @ [Hex04x (colors p (nat i))];
            ws = (if i \<noteq> int PALETTE_MAX - 1 then ws @ [Text '', ''] else ws);
            n = n + 1
        in if n > 8 then palette_table p (i + 1) 0 (ws @ [Text ''\<newline>''])
           else palette_table p (i + 1) n ws
      else ws)"
  by pat_completeness auto
termination
  by (relation "measure (\<lambda>(p, i, n, ws). nat (int PALETTE_MAX - i))") auto

declare palette_table.simps [simp del]

text \<open>
  \<^verbatim>\<open>png2gba\<close> from its loop on: the pixels, the closing of the data array and, when
  \<^verbatim>\<open>palette\<close> is not 0, the palette table.
\<close>

definition png2gba :: "nat \<Rightarrow> Image \<Rightarrow> string \<Rightarrow> int \<Rightarrow> int \<Rightarrow> State \<Rightarrow> (error + State) option" where
  "png2gba fuel img name palette tileize st =
     (case png2gba_loop fuel img palette tileize (st\<lparr>colors_this_line := 0\<rparr>) of
        None \<Rightarrow> None
      | Some (Inl e) \<Rightarrow> Some (Inl e)
      | Some (Inr st1) \<Rightarrow>
          let ws = out st1 @ [Text ''\<newline>};\<newline>\<newline>''] in
          if palette \<noteq> 0 then
            Some (Inr (st1\<lparr>out :=
              palette_table (color_palette st1) 0 0
                (ws @ [Text (''const unsigned short '' @ name @ ''_palette [] = {\<newline>'')])
              @ [Text ''\<newline>};\<newline>\<newline>'']\<rparr>))
          else Some (Inr (st1\<lparr>out := ws\<rparr>)))"

text \<open>
  \<^verbatim>\<open>struct Arguments\<close>, its fields prefixed with \<open>arg_\<close>; a \<^verbatim>\<open>NULL\<close> file name is
  \<open>None\<close>.
\<close>

record Arguments =
  arg_palette :: int
  arg_tileize :: int
  arg_colorkey :: string
  arg_output_file_name :: "string option"
  arg_input_file_name :: "string option"

text \<open>
  \<^verbatim>\<open>main\<close> after the command line is parsed: the verification of the arguments, then
  (the file names, the decoding of the image by libpng and the header lines of the
  output are left to the environment, which supplies \<open>img\<close> and \<open>name\<close>) the creation
  of the palette, \<^verbatim>\<open>memset(&palette, 0, sizeof(palette)); palette.max = args.palette;\<close>
  where the \<^verbatim>\<open>int\<close> is converted to \<^verbatim>\<open>unsigned char\<close>, the insertion of the colorkey
  and the call of \<^verbatim>\<open>png2gba\<close>.
\<close>

definition new_palette :: "int \<Rightarrow> Palette" where
  "new_palette palette = \<lparr>colors = (\<lambda>i. 0), used = 0, max_p = word_of_int palette\<rparr>"

definition verify_arguments :: "Arguments \<Rightarrow> error option" where
  "verify_arguments args =
     (if arg_input_file_name args = None then Some NoInputSpecified
      else if arg_palette args \<noteq> 0 \<and> arg_palette args \<noteq> 16 \<and> arg_palette args \<noteq> 256
      then Some BadPaletteSize
      else None)"

definition main_run :: "nat \<Rightarrow> Arguments \<Rightarrow> Image \<Rightarrow> string \<Rightarrow> (error + State) option" where
  "main_run fuel args img name =
     (case verify_arguments args of
        Some e \<Rightarrow> Some (Inl e)
      | None \<Rightarrow>
         (case hex24_to_15 (arg_colorkey args) of
            Inl e \<Rightarrow> Some (Inl e)
          | Inr key \<Rightarrow>
             (case insert_palette key (new_palette (arg_palette args)) of
                Inl e \<Rightarrow> Some (Inl e)
              | Inr (index, palette1) \<Rightarrow>
                  png2gba fuel img name (arg_palette args) (arg_tileize args)
                    \<lparr>cursor = cursor_start, color_palette = palette1, colors_this_line = 0, out = []\<rparr>)))"

section \<open>Traversal orders\<close>

text \<open>
  \<open>walk img tileize cur ps cur'\<close>: successive calls of \<^verbatim>\<open>next_byte\<close> from the cursor
  \<open>cur\<close> return the positions \<open>ps\<close>, none of them \<^verbatim>\<open>NULL\<close>, and leave the cursor \<open>cur'\<close>.
\<close>

inductive walk :: "Image \<Rightarrow> int \<Rightarrow> Cursor \<Rightarrow> (int \<times> int) list \<Rightarrow> Cursor \<Rightarrow> bool" where
  walk_nil: "walk img tileize cur [] cur"
| walk_step: "next_byte img tileize cur = (Some ptr, cur') \<Longrightarrow> walk img tileize cur' ps cur''
    \<Longrightarrow> walk img tileize cur (ptr # ps) cur''"

text \<open>
  Row-major order of a \<open>W\<close> by \<open>H\<close> image: row 0 from column 0 to \<open>W - 1\<close>, then row 1,
  and so on to row \<open>H - 1\<close>.
\<close>

definition row_major :: "int \<Rightarrow> int \<Rightarrow> (int \<times> int) list" where
  "row_major W H = concat (map (\<lambda>r. map (Pair r) [0..W - 1]) [0..H - 1])"

text \<open>
  Tile-major order: the 8 by 8 tile with top left corner \<open>(r0, c0)\<close> in row-major order;
  the tiles of a tile row from left to right, the tile rows from the top.
\<close>

definition tile_positions :: "int \<Rightarrow> int \<Rightarrow> (int \<times> int) list" where
  "tile_positions r0 c0 = concat (map (\<lambda>r. map (Pair r) [c0..c0 + 7]) [r0..r0 + 7])"

definition tiled_order :: "int \<Rightarrow> int \<Rightarrow> (int \<times> int) list" where
  "tiled_order W H =
     concat (map (\<lambda>ty. concat (map (\<lambda>tx. tile_positions (8 * ty) (8 * tx)) [0..W div 8 - 1]))
       [0..H div 8 - 1])"

text \<open>
  The same for any width and height: the complete tile rows, each with as many tiles
  as cover the width (the last one may reach beyond it), and then, of each row below
  the last complete tile row, the first 8 columns.
\<close>

definition tiled_visits :: "int \<Rightarrow> int \<Rightarrow> (int \<times> int) list" where
  "tiled_visits W H =
     concat (map (\<lambda>ty. concat (map (\<lambda>tx. tile_positions (8 * ty) (8 * tx)) [0..(W + 7) div 8 - 1]))
       [0..H div 8 - 1])
     @ concat (map (\<lambda>r. map (Pair r) [0..7]) [8 * (H div 8)..H - 1])"

text \<open>
  The cursor that tiled mode leaves after the last pixel of row \<open>tr\<close> of a tile, the
  row \<open>r\<close> of the image from column \<open>c0\<close> on: the next row of the tile, or after its
  last row the next tile, or the next tile row.
\<close>

definition row_end :: "Image \<Rightarrow> int \<Rightarrow> int \<Rightarrow> int \<Rightarrow> Cursor" where
  "row_end img r c0 tr =
     (if tr < 7 then \<lparr>cur_r = r + 1, cur_c = c0, cur_tr = tr + 1, cur_tc = 0\<rparr>
      else if c0 + 8 \<ge> width img then \<lparr>cur_r = r + 1, cur_c = 0, cur_tr = 0, cur_tc = 0\<rparr>
      else \<lparr>cur_r = r - 7, cur_c = c0 + 8, cur_tr = 0, cur_tc = 0\<rparr>)"

text \<open>Images: 2 by 2, red with a last pixel of the colorkey's color; 16 by 8, black.\<close>

definition img_2x2 :: Image where
  "img_2x2 = \<lparr>width = 2, height = 2, channels = 3, color_type = 2, bit_depth = 8,
     rows = [[255, 0, 0, 255, 0, 0], [255, 0, 0, 255, 0, 255]]\<rparr>"

definition img_16x8 :: Image where
  "img_16x8 = \<lparr>width = 16, height = 8, channels = 3, color_type = 2, bit_depth = 8,
     rows = replicate 8 (replicate 48 0)\<rparr>"

section \<open>Sequences of insertions, and example inputs\<close>

text \<open>
  \<open>inserts pal pal'\<close>: the palette \<open>pal'\<close> is what zero or more calls of
  \<^verbatim>\<open>insert_palette\<close> that returned make of the palette \<open>pal\<close>.
\<close>

inductive inserts :: "Palette \<Rightarrow> Palette \<Rightarrow> bool" where
  inserts_none: "inserts pal pal"
| inserts_call: "insert_palette color pal = Inr (i, pal') \<Longrightarrow> inserts pal' pal'' \<Longrightarrow> inserts pal pal''"

text \<open>
  The palette of 16 with the colorkey \<^verbatim>\<open>#ff00ff\<close> (\<open>0x7C1F\<close>) alone, and with red
  (\<open>0x001F\<close>) after it.
\<close>

definition one_color :: Palette where
  "one_color = \<lparr>colors = (\<lambda>i. 0)(0 := 0x7C1F), used = 1, max_p = 16\<rparr>"

definition two_colors :: Palette where
  "two_colors = \<lparr>colors = (\<lambda>i. 0)(0 := 0x7C1F, 1 := 0x001F), used = 2, max_p = 16\<rparr>"

section \<open>Valid colorkeys\<close>

text \<open>
  A valid colorkey is \<^verbatim>\<open>#\<close> and six hexadecimal digits; \<open>hex_byte hi lo\<close> is the byte
  that two hexadecimal digits denote.
\<close>

definition valid_colorkey :: "string \<Rightarrow> bool" where
  "valid_colorkey s = (length s = 7 \<and> hd s = CHR ''#'' \<and> list_all (\<lambda>ch. hex_value ch \<noteq> None) (tl s))"

definition hex_byte :: "char \<Rightarrow> char \<Rightarrow> u8" where
  "hex_byte hi lo = word_of_int (16 * the (hex_value hi) + the (hex_value lo))"

section \<open>Reading the output\<close>

text \<open>
  The palette indices that a sequence of calls wrote (the arguments of its
  \<^verbatim>\<open>"0x%02X"\<close> calls) and the palette table entries (those of \<^verbatim>\<open>"0x%04x"\<close>).
\<close>

fun index_of_call :: "fprintf_call \<Rightarrow> u8 list" where
  "index_of_call (Hex02X i) = [i]"
| "index_of_call w = []"

definition emitted_indices :: "fprintf_call list \<Rightarrow> u8 list" where
  "emitted_indices ws = concat (map index_of_call ws)"

fun entry_of_call :: "fprintf_call \<Rightarrow> u16 list" where
  "entry_of_call (Hex04x c) = [c]"
| "entry_of_call w = []"

definition table_entries :: "fprintf_call list \<Rightarrow> u16 list" where
  "table_entries ws = concat (map entry_of_call ws)"

text \<open>
  The calls of one turn of the pixel loop that writes the value \<open>w\<close> when
  \<^verbatim>\<open>colors_this_line\<close> is \<open>n\<close>, the next \<^verbatim>\<open>colors_this_line\<close>, and the calls of the turns
  for a list of values.
\<close>

definition line_item :: "int \<Rightarrow> fprintf_call \<Rightarrow> fprintf_call list" where
  "line_item n w =
     (if n = 0 then [Text ''    ''] else []) @ [w, Text '', '']
       @ (if n + 1 \<ge> 8 then [Text ''\<newline>''] else [])"

definition next_count :: "int \<Rightarrow> int" where
  "next_count n = (if n + 1 \<ge> 8 then 0 else n + 1)"

fun layout :: "int \<Rightarrow> fprintf_call list \<Rightarrow> fprintf_call list" where
  "layout n [] = []"
| "layout n (w # ws) = line_item n w @ layout (next_count n) ws"

text \<open>
  Lines of \<open>n\<close> values, as the specification words them: the items are cut into rows
  of \<open>n\<close> (the last row may be shorter); every row is written after four spaces, and a
  row of \<open>n\<close> items is closed by a line break. \<open>wrap L n\<close> is the same text written
  item by item with a counter \<open>n\<close> that breaks the line when it reaches \<open>L\<close>.
\<close>

function rows_of :: "nat \<Rightarrow> 'a list \<Rightarrow> 'a list list" where
  "rows_of n xs = (if n = 0 \<or> xs = [] then [] else take n xs # rows_of n (drop n xs))"
  by pat_completeness auto
termination
  by (relation "measure (\<lambda>(n, xs). length xs)") auto

declare rows_of.simps [simp del]

definition group_lines :: "nat \<Rightarrow> string list \<Rightarrow> string" where
  "group_lines n items =
     concat (map (\<lambda>row. ''    '' @ concat row @ (if length row = n then ''\<newline>'' else []))
       (rows_of n items))"

fun wrap :: "int \<Rightarrow> int \<Rightarrow> string list \<Rightarrow> string" where
  "wrap L n [] = []"
| "wrap L n (x # xs) =
     (if n = 0 then ''    '' else []) @ x
       @ (if n + 1 \<ge> L then ''\<newline>'' @ wrap L 0 xs else wrap L (n + 1) xs)"

text \<open>
  The text of slot \<open>i\<close> of the palette table: the value, and the separator unless the
  slot is the last one.
\<close>

definition table_entry :: "Palette \<Rightarrow> nat \<Rightarrow> string" where
  "table_entry p i =
     render (Hex04x (colors p i)) @ (if i \<noteq> PALETTE_MAX - 1 then '', '' else [])"

section \<open>Example runs\<close>

text \<open>
  The arguments \<^verbatim>\<open>-p16 -i img.png\<close> with the default colorkey; the state in which
  \<^verbatim>\<open>main\<close> calls \<^verbatim>\<open>png2gba\<close> for them; the states after the pixel loop and at the end
  for the 2 by 2 image; a 16 by 1 image, black, with the palette and the states of its
  tiled run.
\<close>

definition args_16 :: Arguments where
  "args_16 = \<lparr>arg_palette = 16, arg_tileize = 0, arg_colorkey = ''#ff00ff'',
     arg_output_file_name = None, arg_input_file_name = Some ''img.png''\<rparr>"

definition start_16 :: State where
  "start_16 = \<lparr>cursor = cursor_start, color_palette = one_color, colors_this_line = 0, out = []\<rparr>"

definition end_2x2 :: State where
  "end_2x2 = \<lparr>cursor = \<lparr>cur_r = 2, cur_c = 0, cur_tr = 0, cur_tc = 0\<rparr>,
     color_palette = two_colors, colors_this_line = 4,
     out = [Text ''    '', Hex02X 1, Text '', '', Hex02X 1, Text '', '', Hex02X 1, Text '', '',
            Hex02X 0, Text '', '']\<rparr>"

definition final_2x2 :: State where
  "final_2x2 = end_2x2\<lparr>out :=
     palette_table two_colors 0 0
       (out end_2x2 @ [Text ''\<newline>};\<newline>\<newline>'',
                       Text (''const unsigned short '' @ ''img'' @ ''_palette [] = {\<newline>'')])
     @ [Text ''\<newline>};\<newline>\<newline>'']\<rparr>"

definition img_16x1 :: Image where
  "img_16x1 = \<lparr>width = 16, height = 1, channels = 3, color_type = 2, bit_depth = 8,
     rows = [replicate 48 0]\<rparr>"

definition black_second :: Palette where
  "black_second = \<lparr>colors = (\<lambda>i. 0)(0 := 0x7C1F, 1 := 0), used = 2, max_p = 16\<rparr>"

definition end_16x1 :: State where
  "end_16x1 = \<lparr>cursor = \<lparr>cur_r = 1, cur_c = 0, cur_tr = 1, cur_tc = 0\<rparr>,
     color_palette = black_second, colors_this_line = 0,
     out = [Text ''    '', Hex02X 1, Text '', '', Hex02X 1, Text '', '', Hex02X 1, Text '', '',
            Hex02X 1, Text '', '', Hex02X 1, Text '', '', Hex02X 1, Text '', '',
            Hex02X 1, Text '', '', Hex02X 1, Text '', '', Text ''\<newline>'']\<rparr>"

definition final_16x1 :: State where
  "final_16x1 = end_16x1\<lparr>out :=
     palette_table black_second 0 0
       (out end_16x1 @ [Text ''\<newline>};\<newline>\<newline>'',
                        Text (''const unsigned short '' @ ''img'' @ ''_palette [] = {\<newline>'')])
     @ [Text ''\<newline>};\<newline>\<newline>'']\<rparr>"

text \<open>
  The state in which \<^verbatim>\<open>png2gba\<close> would run in direct-color mode, and its end for the 2 by
  2 image.
\<close>

definition start_direct :: State where
  "start_direct = \<lparr>cursor = cursor_start, color_palette = new_palette 0, colors_this_line = 0, out = []\<rparr>"

definition final_direct :: State where
  "final_direct = \<lparr>cursor = \<lparr>cur_r = 2, cur_c = 0, cur_tr = 0, cur_tc = 0\<rparr>,
     color_palette = new_palette 0, colors_this_line = 4,
     out = [Text ''    '', Hex04X 0x001F, Text '', '', Hex04X 0x001F, Text '', '',
            Hex04X 0x001F, Text '', '', Hex04X 0x7C1F, Text '', '',
            Text ''\<newline>};\<newline>\<newline>'']\<rparr>"

section \<open>The quantizer packs the top five bits of each channel\<close>

lemma word_of_int_drop_bit_uint:
  "(word_of_int (drop_bit 3 (uint (x::u8))) :: u16) = ucast (drop_bit 3 x)"
  by (rule bit_word_eqI) (auto simp add: bit_simps)

lemma word_of_int_push_drop_bit_uint:
  "(word_of_int (push_bit n (drop_bit 3 (uint (x::u8)))) :: u16) = push_bit n (ucast (drop_bit 3 x))"
  by (rule bit_word_eqI) (auto simp add: bit_simps)

lemma quantize_sum:
  "quantize r g b =
     push_bit 10 (ucast (drop_bit 3 b)) + push_bit 5 (ucast (drop_bit 3 g)) + ucast (drop_bit 3 r)"
  unfolding quantize_def Let_def
  by (simp add: word_of_int_drop_bit_uint word_of_int_push_drop_bit_uint flip: wi_hom_add)

lemma blue_green_disjoint:
  "(push_bit 10 (ucast (drop_bit 3 (b::u8))) :: u16) + push_bit 5 (ucast (drop_bit 3 (g::u8)))
     = push_bit 10 (ucast (drop_bit 3 b)) OR push_bit 5 (ucast (drop_bit 3 g))"
  by (rule disjunctive_add) (auto simp add: bit_simps dest: bit_imp_le_length)

lemma quantize_or:
  "quantize r g b =
     push_bit 10 (ucast (drop_bit 3 b)) OR push_bit 5 (ucast (drop_bit 3 g)) OR ucast (drop_bit 3 r)"
proof -
  have "(push_bit 10 (ucast (drop_bit 3 b)) OR push_bit 5 (ucast (drop_bit 3 g)))
          + (ucast (drop_bit 3 r) :: u16)
      = (push_bit 10 (ucast (drop_bit 3 b)) OR push_bit 5 (ucast (drop_bit 3 g)))
          OR ucast (drop_bit 3 r)"
    by (rule disjunctive_add) (auto simp add: bit_simps dest: bit_imp_le_length)
  then show ?thesis
    by (simp add: quantize_sum blue_green_disjoint or.assoc)
qed

lemma uint_quantize:
  "uint (quantize r g b) = (uint b div 8) * 1024 + (uint g div 8) * 32 + uint r div 8"
proof -
  have b: "0 \<le> uint b div 8" "uint b div 8 < 32"
    using uint_lt2p [of b] uint_ge_0 [of b] by (simp_all add: pos_imp_zdiv_nonneg_iff)
  have g: "0 \<le> uint g div 8" "uint g div 8 < 32"
    using uint_lt2p [of g] uint_ge_0 [of g] by (simp_all add: pos_imp_zdiv_nonneg_iff)
  have r: "0 \<le> uint r div 8" "uint r div 8 < 32"
    using uint_lt2p [of r] uint_ge_0 [of r] by (simp_all add: pos_imp_zdiv_nonneg_iff)
  have small: "(uint b div 8 * 1024 + uint g div 8 * 32 + uint r div 8) mod 65536
      = uint b div 8 * 1024 + uint g div 8 * 32 + uint r div 8"
    using b g r by simp
  have "quantize r g b = word_of_int (uint b div 8 * 1024 + uint g div 8 * 32 + uint r div 8)"
    unfolding quantize_def Let_def
    by (simp add: push_bit_eq_mult drop_bit_eq_div)
  then have "uint (quantize r g b)
      = (uint b div 8 * 1024 + uint g div 8 * 32 + uint r div 8) mod 2 ^ LENGTH(16)"
    by (simp only: uint_word_of_int)
  then show ?thesis using small by simp
qed

lemma uint_quantize_less: "uint (quantize r g b) < 2 ^ 15"
proof -
  have "uint b div 8 < 32" "uint g div 8 < 32" "uint r div 8 < 32"
    using uint_lt2p [of b] uint_lt2p [of g] uint_lt2p [of r] by simp_all
  then show ?thesis unfolding uint_quantize by simp
qed

lemma drop_bit_low_three: "drop_bit 3 (x XOR (p AND 7)) = drop_bit 3 (x::u8)"
  by (rule bit_word_eqI) (auto simp add: bit_simps)

text \<open>
  C1. For every red, green and blue byte the quantizer returns
  \<open>(b >> 3) << 10 | (g >> 3) << 5 | (r >> 3)\<close>, a value below \<open>2 ^ 15\<close>, and the result
  is the same when the low three bits of any channel are changed (\<open>XOR\<close> with any value
  masked to its low three bits).
\<close>

theorem quantize_packs_top_five_bits:
  "quantize r g b =
     push_bit 10 (ucast (drop_bit 3 b)) OR push_bit 5 (ucast (drop_bit 3 g)) OR ucast (drop_bit 3 r)
   \<and> uint (quantize r g b) < 2 ^ 15
   \<and> quantize (r XOR (p AND 7)) (g XOR (q AND 7)) (b XOR (s AND 7)) = quantize r g b"
proof -
  have "quantize (r XOR (p AND 7)) (g XOR (q AND 7)) (b XOR (s AND 7)) = quantize r g b"
    by (simp only: quantize_or drop_bit_low_three)
  then show ?thesis
    using quantize_or [of r g b] uint_quantize_less [of r g b] by simp
qed

section \<open>Traversal: linear and tiled\<close>

lemma walk_append:
  "walk img tileize cur ps cur' \<Longrightarrow> walk img tileize cur' qs cur''
    \<Longrightarrow> walk img tileize cur (ps @ qs) cur''"
  by (induction rule: walk.induct) (auto intro: walk.intros)

lemma walk_traverse:
  "walk img tileize cur ps cur' \<Longrightarrow> cur_r cur' = height img \<Longrightarrow> length ps < fuel
    \<Longrightarrow> traverse fuel img tileize cur = Some ps"
proof (induction arbitrary: fuel rule: walk.induct)
  case (walk_nil img tileize cur)
  then obtain n where "fuel = Suc n" by (cases fuel) auto
  with walk_nil show ?case by (simp add: next_byte_def)
next
  case (walk_step img tileize cur ptr cur' ps cur'')
  then obtain n where n: "fuel = Suc n" "length ps < n" by (cases fuel) auto
  with walk_step show ?case by simp
qed

lemma traverse_walk:
  "traverse fuel img tileize cur = Some ps \<Longrightarrow>
     \<exists>cur'. walk img tileize cur ps cur' \<and> cur_r cur' = height img \<and> length ps < fuel"
proof (induction fuel arbitrary: cur ps)
  case 0
  then show ?case by simp
next
  case (Suc fuel)
  show ?case
  proof (cases "next_byte img tileize cur")
    case (Pair res cur1)
    show ?thesis
    proof (cases res)
      case None
      with Pair Suc.prems have "ps = []" by simp
      moreover from None Pair have "cur_r cur = height img"
        by (auto simp add: next_byte_def Let_def split: if_splits prod.splits)
      ultimately show ?thesis by (auto intro: walk_nil)
    next
      case (Some ptr)
      with Pair Suc.prems obtain qs where qs: "traverse fuel img tileize cur1 = Some qs" "ps = ptr # qs"
        by auto
      from Suc.IH [OF qs(1)] obtain cur' where "walk img tileize cur1 qs cur'"
        "cur_r cur' = height img" "length qs < fuel" by auto
      with Pair Some qs show ?thesis by (auto intro: walk_step)
    qed
  qed
qed

lemma linear_step:
  "cur_r cur \<noteq> height img \<Longrightarrow>
    next_byte img 0 cur = (Some (cur_r cur, cur_c cur),
      if cur_c cur + 1 \<ge> width img then cur\<lparr>cur_r := cur_r cur + 1, cur_c := 0\<rparr>
      else cur\<lparr>cur_c := cur_c cur + 1\<rparr>)"
  by (simp add: next_byte_def Let_def)

lemma linear_row:
  assumes "r \<noteq> height img"
  shows "c < width img \<Longrightarrow>
    walk img 0 \<lparr>cur_r = r, cur_c = c, cur_tr = tr, cur_tc = tc\<rparr> (map (Pair r) [c..width img - 1])
      \<lparr>cur_r = r + 1, cur_c = 0, cur_tr = tr, cur_tc = tc\<rparr>"
proof (induction "nat (width img - c)" arbitrary: c)
  case 0
  then show ?case by simp
next
  case (Suc n)
  let ?cur = "\<lparr>cur_r = r, cur_c = c, cur_tr = tr, cur_tc = tc\<rparr>"
  have list: "[c..width img - 1] = c # [c + 1..width img - 1]"
    using Suc.prems by (simp add: upto_rec1)
  show ?case
  proof (cases "c + 1 \<ge> width img")
    case True
    then have "[c + 1..width img - 1] = []" by simp
    moreover have "next_byte img 0 ?cur = (Some (r, c), \<lparr>cur_r = r + 1, cur_c = 0, cur_tr = tr, cur_tc = tc\<rparr>)"
      using assms True by (simp add: linear_step)
    ultimately show ?thesis
      unfolding list by (auto intro: walk.intros)
  next
    case False
    then have step: "next_byte img 0 ?cur = (Some (r, c), \<lparr>cur_r = r, cur_c = c + 1, cur_tr = tr, cur_tc = tc\<rparr>)"
      using assms by (simp add: linear_step)
    have "n = nat (width img - (c + 1))" using Suc.hyps(2) by simp
    from Suc.hyps(1) [OF this] False
    have "walk img 0 \<lparr>cur_r = r, cur_c = c + 1, cur_tr = tr, cur_tc = tc\<rparr>
      (map (Pair r) [c + 1..width img - 1]) \<lparr>cur_r = r + 1, cur_c = 0, cur_tr = tr, cur_tc = tc\<rparr>"
      by simp
    with step show ?thesis unfolding list by (auto intro: walk_step)
  qed
qed

lemma linear_rows:
  assumes "0 < width img"
  shows "r \<le> height img \<Longrightarrow>
    walk img 0 \<lparr>cur_r = r, cur_c = 0, cur_tr = tr, cur_tc = tc\<rparr>
      (concat (map (\<lambda>r. map (Pair r) [0..width img - 1]) [r..height img - 1]))
      \<lparr>cur_r = height img, cur_c = 0, cur_tr = tr, cur_tc = tc\<rparr>"
proof (induction "nat (height img - r)" arbitrary: r)
  case 0
  then have "r = height img" by simp
  then show ?case by (auto intro: walk_nil)
next
  case (Suc n)
  then have lt: "r < height img" by simp
  then have list: "[r..height img - 1] = r # [r + 1..height img - 1]"
    by (simp add: upto_rec1)
  have "n = nat (height img - (r + 1))" using Suc.hyps(2) by simp
  from Suc.hyps(1) [OF this] lt
  have rest: "walk img 0 \<lparr>cur_r = r + 1, cur_c = 0, cur_tr = tr, cur_tc = tc\<rparr>
      (concat (map (\<lambda>r. map (Pair r) [0..width img - 1]) [r + 1..height img - 1]))
      \<lparr>cur_r = height img, cur_c = 0, cur_tr = tr, cur_tc = tc\<rparr>"
    by simp
  from lt have "r \<noteq> height img" by simp
  from walk_append [OF linear_row [OF this assms] rest]
  show ?case unfolding list by simp
qed

lemma row_major_product: "row_major W H = List.product [0..H - 1] [0..W - 1]"
  by (simp add: row_major_def product_concat_map)

lemma row_major_facts:
  assumes "0 < W" and "0 < H"
  shows "length (row_major W H) = nat (W * H)"
    and "distinct (row_major W H)"
    and "set (row_major W H) = {0..<H} \<times> {0..<W}"
    and "last (row_major W H) = (H - 1, W - 1)"
proof -
  have "length (row_major W H) = nat H * nat W"
    using assms by (simp add: row_major_product)
  then show "length (row_major W H) = nat (W * H)"
    using assms by (simp add: nat_mult_distrib mult.commute)
  show "distinct (row_major W H)"
    by (simp add: row_major_product distinct_product)
  show "set (row_major W H) = {0..<H} \<times> {0..<W}"
    by (auto simp add: row_major_product)
  have h: "[0..H - 1] = [0..H - 1 - 1] @ [H - 1]"
    using assms by (simp add: upto_rec2)
  have w: "[0..W - 1] = [0..W - 1 - 1] @ [W - 1]"
    using assms by (simp add: upto_rec2)
  have rows: "row_major W H = concat (map (\<lambda>r. map (Pair r) [0..W - 1]) [0..H - 1 - 1])
      @ map (Pair (H - 1)) [0..W - 1]"
    unfolding row_major_def by (subst h) simp
  have "map (Pair (H - 1)) [0..W - 1] = map (Pair (H - 1)) [0..W - 1 - 1] @ [(H - 1, W - 1)]"
    by (subst w) simp
  then show "last (row_major W H) = (H - 1, W - 1)"
    unfolding rows by simp
qed

lemma linear_walk:
  assumes "0 < width img" and "0 < height img"
  shows "walk img 0 cursor_start (row_major (width img) (height img))
    \<lparr>cur_r = height img, cur_c = 0, cur_tr = 0, cur_tc = 0\<rparr>"
  using linear_rows [OF assms(1), of 0 0 0] assms(2)
  by (simp add: cursor_start_def row_major_def)

lemma linear_traverse:
  assumes "0 < width img" and "0 < height img" and "nat (width img * height img) < fuel"
  shows "traverse fuel img 0 cursor_start = Some (row_major (width img) (height img))"
  using linear_walk [OF assms(1,2)]
  by (rule walk_traverse) (use assms(3) row_major_facts(1) [OF assms(1,2)] in simp_all)

text \<open>
  C2. For an image of positive width and height, linear traversal (\<^verbatim>\<open>tileize\<close> = 0)
  from the initial cursor, given more calls than the image has pixels, returns exactly
  the positions of the image in row-major order: width times height of them, each
  position of the image once, the last one \<open>(H - 1, W - 1)\<close>; the cursor they leave
  makes \<^verbatim>\<open>next_byte\<close> return \<^verbatim>\<open>NULL\<close> and stay as it is.
\<close>

theorem linear_traversal_row_major:
  assumes "0 < width img" and "0 < height img" and "nat (width img * height img) < fuel"
  shows "traverse fuel img 0 cursor_start = Some (row_major (width img) (height img))
    \<and> length (row_major (width img) (height img)) = nat (width img * height img)
    \<and> distinct (row_major (width img) (height img))
    \<and> set (row_major (width img) (height img)) = {0..<height img} \<times> {0..<width img}
    \<and> last (row_major (width img) (height img)) = (height img - 1, width img - 1)
    \<and> (\<exists>cur. walk img 0 cursor_start (row_major (width img) (height img)) cur
          \<and> next_byte img 0 cur = (None, cur))"
proof -
  let ?end = "\<lparr>cur_r = height img, cur_c = 0, cur_tr = 0, cur_tc = 0\<rparr>"
  have stop: "next_byte img 0 ?end = (None, ?end)"
    by (simp add: next_byte_def)
  note f = row_major_facts [OF assms(1,2)]
  note w = linear_walk [OF assms(1,2)]
  note t = linear_traverse [OF assms]
  from t f w stop show ?thesis by blast
qed

theorem linear_traversal_row_major_witness:
  "0 < width img_2x2 \<and> 0 < height img_2x2 \<and> nat (width img_2x2 * height img_2x2) < 5
   \<and> traverse 5 img_2x2 0 cursor_start = Some [(0, 0), (0, 1), (1, 0), (1, 1)]"
proof -
  have h: "0 < width img_2x2" "0 < height img_2x2" "nat (width img_2x2 * height img_2x2) < 5"
    by (simp_all add: img_2x2_def)
  have "row_major (width img_2x2) (height img_2x2) = [(0, 0), (0, 1), (1, 0), (1, 1)]"
    by (simp add: row_major_def img_2x2_def upto.simps)
  with linear_traversal_row_major [OF h] h show ?thesis by simp
qed

lemma tiled_step_inside:
  assumes "tileize \<noteq> 0" and "r \<noteq> height img" and "tc < 7"
  shows "next_byte img tileize \<lparr>cur_r = r, cur_c = c, cur_tr = tr, cur_tc = tc\<rparr>
    = (Some (r, c), \<lparr>cur_r = r, cur_c = c + 1, cur_tr = tr, cur_tc = tc + 1\<rparr>)"
  using assms by (simp add: next_byte_def Let_def)

lemma tiled_step_row_end:
  assumes "tileize \<noteq> 0" and "r \<noteq> height img" and "c0 < width img" and "tr \<le> 7"
  shows "next_byte img tileize \<lparr>cur_r = r, cur_c = c0 + 7, cur_tr = tr, cur_tc = 7\<rparr>
    = (Some (r, c0 + 7), row_end img r c0 tr)"
  using assms by (simp add: next_byte_def Let_def row_end_def)

lemma tiled_row:
  assumes "tileize \<noteq> 0" and "r \<noteq> height img" and "c0 < width img" and "tr \<le> 7"
  shows "tc \<le> 7 \<Longrightarrow>
    walk img tileize \<lparr>cur_r = r, cur_c = c0 + tc, cur_tr = tr, cur_tc = tc\<rparr>
      (map (Pair r) [c0 + tc..c0 + 7]) (row_end img r c0 tr)"
proof (induction "nat (7 - tc)" arbitrary: tc)
  case 0
  then have "tc = 7" by simp
  with tiled_step_row_end [OF assms] show ?case
    by (auto intro: walk.intros)
next
  case (Suc n)
  then have lt: "tc < 7" by simp
  then have list: "[c0 + tc..c0 + 7] = (c0 + tc) # [c0 + (tc + 1)..c0 + 7]"
    by (simp add: upto_rec1 add.assoc)
  have "n = nat (7 - (tc + 1))" using Suc.hyps(2) by simp
  from Suc.hyps(1) [OF this] lt
  have "walk img tileize \<lparr>cur_r = r, cur_c = c0 + (tc + 1), cur_tr = tr, cur_tc = tc + 1\<rparr>
      (map (Pair r) [c0 + (tc + 1)..c0 + 7]) (row_end img r c0 tr)"
    by simp
  with tiled_step_inside [OF assms(1,2) lt, of "c0 + tc" tr]
  show ?case unfolding list by (auto intro: walk_step simp add: add.assoc)
qed

lemma tiled_tile:
  assumes "tileize \<noteq> 0" and "r0 + 8 \<le> height img" and "c0 < width img"
  shows "0 \<le> tr \<Longrightarrow> tr \<le> 7 \<Longrightarrow>
    walk img tileize \<lparr>cur_r = r0 + tr, cur_c = c0, cur_tr = tr, cur_tc = 0\<rparr>
      (concat (map (\<lambda>r. map (Pair r) [c0..c0 + 7]) [r0 + tr..r0 + 7]))
      (if c0 + 8 \<ge> width img then \<lparr>cur_r = r0 + 8, cur_c = 0, cur_tr = 0, cur_tc = 0\<rparr>
       else \<lparr>cur_r = r0, cur_c = c0 + 8, cur_tr = 0, cur_tc = 0\<rparr>)"
proof (induction "nat (7 - tr)" arbitrary: tr)
  case 0
  then have tr: "tr = 7" by simp
  have "r0 + 7 \<noteq> height img" using assms(2) by simp
  from tiled_row [OF assms(1) this assms(3), of 7 0]
  have "walk img tileize \<lparr>cur_r = r0 + 7, cur_c = c0, cur_tr = 7, cur_tc = 0\<rparr>
      (map (Pair (r0 + 7)) [c0..c0 + 7]) (row_end img (r0 + 7) c0 7)"
    by simp
  then show ?case
    by (cases "width img \<le> c0 + 8") (simp_all add: tr row_end_def algebra_simps)
next
  case (Suc n)
  then have lt: "tr < 7" by simp
  then have list: "[r0 + tr..r0 + 7] = (r0 + tr) # [r0 + (tr + 1)..r0 + 7]"
    by (simp add: upto_rec1 add.assoc)
  have "r0 + tr \<noteq> height img" using assms(2) lt by simp
  from tiled_row [OF assms(1) this assms(3), of tr 0] lt
  have row: "walk img tileize \<lparr>cur_r = r0 + tr, cur_c = c0, cur_tr = tr, cur_tc = 0\<rparr>
      (map (Pair (r0 + tr)) [c0..c0 + 7])
      \<lparr>cur_r = r0 + (tr + 1), cur_c = c0, cur_tr = tr + 1, cur_tc = 0\<rparr>"
    by (simp add: row_end_def add.assoc)
  have "n = nat (7 - (tr + 1))" using Suc.hyps(2) by simp
  from Suc.hyps(1) [OF this] lt Suc.prems
  have rest: "walk img tileize \<lparr>cur_r = r0 + (tr + 1), cur_c = c0, cur_tr = tr + 1, cur_tc = 0\<rparr>
      (concat (map (\<lambda>r. map (Pair r) [c0..c0 + 7]) [r0 + (tr + 1)..r0 + 7]))
      (if c0 + 8 \<ge> width img then \<lparr>cur_r = r0 + 8, cur_c = 0, cur_tr = 0, cur_tc = 0\<rparr>
       else \<lparr>cur_r = r0, cur_c = c0 + 8, cur_tr = 0, cur_tc = 0\<rparr>)"
    by simp
  from walk_append [OF row rest] show ?case unfolding list by simp
qed

lemma tiled_tile_row:
  assumes "tileize \<noteq> 0" and "r0 + 8 \<le> height img"
    and "8 * (TW - 1) < width img" and "width img \<le> 8 * TW"
  shows "0 \<le> tx \<Longrightarrow> tx < TW \<Longrightarrow>
    walk img tileize \<lparr>cur_r = r0, cur_c = 8 * tx, cur_tr = 0, cur_tc = 0\<rparr>
      (concat (map (\<lambda>tx. tile_positions r0 (8 * tx)) [tx..TW - 1]))
      \<lparr>cur_r = r0 + 8, cur_c = 0, cur_tr = 0, cur_tc = 0\<rparr>"
proof (induction "nat (TW - 1 - tx)" arbitrary: tx)
  case 0
  then have tx: "tx = TW - 1" by simp
  have "8 * tx < width img" using assms(3) tx by simp
  from tiled_tile [OF assms(1,2) this, of 0] assms(4)
  show ?case by (simp add: tx tile_positions_def)
next
  case (Suc n)
  then have lt: "tx < TW - 1" by simp
  then have list: "[tx..TW - 1] = tx # [tx + 1..TW - 1]"
    by (simp add: upto_rec1)
  have "8 * tx < width img" using assms(3) lt by simp
  from tiled_tile [OF assms(1,2) this, of 0] assms(3) lt
  have tile: "walk img tileize \<lparr>cur_r = r0, cur_c = 8 * tx, cur_tr = 0, cur_tc = 0\<rparr>
      (tile_positions r0 (8 * tx)) \<lparr>cur_r = r0, cur_c = 8 * (tx + 1), cur_tr = 0, cur_tc = 0\<rparr>"
    by (simp add: tile_positions_def algebra_simps)
  have "n = nat (TW - 1 - (tx + 1))" using Suc.hyps(2) by simp
  from Suc.hyps(1) [OF this] lt Suc.prems
  have rest: "walk img tileize \<lparr>cur_r = r0, cur_c = 8 * (tx + 1), cur_tr = 0, cur_tc = 0\<rparr>
      (concat (map (\<lambda>tx. tile_positions r0 (8 * tx)) [tx + 1..TW - 1]))
      \<lparr>cur_r = r0 + 8, cur_c = 0, cur_tr = 0, cur_tc = 0\<rparr>"
    by simp
  from walk_append [OF tile rest] show ?case unfolding list by simp
qed


lemma tiled_image:
  assumes "tileize \<noteq> 0" and "8 * (TW - 1) < width img" and "width img \<le> 8 * TW"
    and "8 * TH \<le> height img" and "0 < TW"
  shows "0 \<le> ty \<Longrightarrow> ty \<le> TH \<Longrightarrow>
    walk img tileize \<lparr>cur_r = 8 * ty, cur_c = 0, cur_tr = 0, cur_tc = 0\<rparr>
      (concat (map (\<lambda>ty. concat (map (\<lambda>tx. tile_positions (8 * ty) (8 * tx)) [0..TW - 1]))
         [ty..TH - 1]))
      \<lparr>cur_r = 8 * TH, cur_c = 0, cur_tr = 0, cur_tc = 0\<rparr>"
proof (induction "nat (TH - ty)" arbitrary: ty)
  case 0
  then have "ty = TH" by simp
  then show ?case by (auto intro: walk_nil)
next
  case (Suc n)
  then have lt: "ty < TH" by simp
  then have list: "[ty..TH - 1] = ty # [ty + 1..TH - 1]"
    by (simp add: upto_rec1)
  have "8 * ty + 8 \<le> height img" using assms(4) lt by simp
  from tiled_tile_row [OF assms(1) this assms(2,3), of 0] assms(5)
  have row: "walk img tileize \<lparr>cur_r = 8 * ty, cur_c = 0, cur_tr = 0, cur_tc = 0\<rparr>
      (concat (map (\<lambda>tx. tile_positions (8 * ty) (8 * tx)) [0..TW - 1]))
      \<lparr>cur_r = 8 * (ty + 1), cur_c = 0, cur_tr = 0, cur_tc = 0\<rparr>"
    by (simp add: algebra_simps)
  have "n = nat (TH - (ty + 1))" using Suc.hyps(2) by simp
  from Suc.hyps(1) [OF this] lt Suc.prems
  have rest: "walk img tileize \<lparr>cur_r = 8 * (ty + 1), cur_c = 0, cur_tr = 0, cur_tc = 0\<rparr>
      (concat (map (\<lambda>ty. concat (map (\<lambda>tx. tile_positions (8 * ty) (8 * tx)) [0..TW - 1]))
         [ty + 1..TH - 1]))
      \<lparr>cur_r = 8 * TH, cur_c = 0, cur_tr = 0, cur_tc = 0\<rparr>"
    by simp
  from walk_append [OF row rest] show ?case unfolding list by simp
qed


lemma length_concat_const:
  "(\<And>x. x \<in> set xs \<Longrightarrow> length (f x) = n) \<Longrightarrow> length (concat (map f xs)) = length xs * n"
  by (induction xs) simp_all

lemma set_tile_positions: "set (tile_positions r0 c0) = {r0..r0 + 7} \<times> {c0..c0 + 7}"
  by (auto simp add: tile_positions_def)

lemma length_tile_positions: "length (tile_positions r0 c0) = 64"
  by (simp add: tile_positions_def length_concat_const [where n = 8])

lemma tiled_order_facts:
  assumes "0 < TW" and "0 < TH"
  shows "length (tiled_order (8 * TW) (8 * TH)) = nat (8 * TW * (8 * TH))"
    and "set (tiled_order (8 * TW) (8 * TH)) = {0..<8 * TH} \<times> {0..<8 * TW}"
    and "distinct (tiled_order (8 * TW) (8 * TH))"
proof -
  have "length (tiled_order (8 * TW) (8 * TH)) = nat TH * (nat TW * 64)"
    unfolding tiled_order_def
    by (subst length_concat_const [where n = "nat TW * 64"])
      (use assms in \<open>simp_all add: length_concat_const [where n = 64] length_tile_positions\<close>)
  also have "\<dots> = nat (8 * TW * (8 * TH))"
    using assms by (simp add: nat_mult_distrib)
  finally show len: "length (tiled_order (8 * TW) (8 * TH)) = nat (8 * TW * (8 * TH))" .
  have sub: "set (tiled_order (8 * TW) (8 * TH)) \<subseteq> {0..<8 * TH} \<times> {0..<8 * TW}"
    by (auto simp add: tiled_order_def set_tile_positions)
  have sup: "(r, c) \<in> set (tiled_order (8 * TW) (8 * TH))"
    if "(r, c) \<in> {0..<8 * TH} \<times> {0..<8 * TW}" for r c
  proof -
    from that have r: "0 \<le> r div 8" "r div 8 \<le> TH - 1" "8 * (r div 8) \<le> r" "r \<le> 8 * (r div 8) + 7"
      by auto
    from that have c: "0 \<le> c div 8" "c div 8 \<le> TW - 1" "8 * (c div 8) \<le> c" "c \<le> 8 * (c div 8) + 7"
      by auto
    have "(r, c) \<in> set (tile_positions (8 * (r div 8)) (8 * (c div 8)))"
      using r c by (simp add: set_tile_positions)
    moreover have "r div 8 \<in> {0..TH - 1}" "c div 8 \<in> {0..TW - 1}"
      using r c by simp_all
    ultimately show ?thesis
      unfolding tiled_order_def
      by (simp only: set_concat set_map set_upto nonzero_mult_div_cancel_left) fastforce
  qed
  from sub sup show set: "set (tiled_order (8 * TW) (8 * TH)) = {0..<8 * TH} \<times> {0..<8 * TW}"
    by auto
  have "card (set (tiled_order (8 * TW) (8 * TH))) = nat (8 * TH) * nat (8 * TW)"
    unfolding set by (simp add: card_cartesian_product)
  also have "\<dots> = length (tiled_order (8 * TW) (8 * TH))"
    unfolding len using assms by (simp add: nat_mult_distrib)
  finally show "distinct (tiled_order (8 * TW) (8 * TH))"
    by (rule card_distinct)
qed

lemma tiled_order_single_tile: "tiled_order 8 8 = row_major 8 8"
  by (simp add: tiled_order_def tile_positions_def row_major_def)

lemma tiled_order_two_tiles: "tiled_order 16 8 = tile_positions 0 0 @ tile_positions 0 8"
  by (simp add: tiled_order_def upto.simps)

text \<open>
  C3. For an image whose width and height are positive multiples of 8, tiled traversal
  (\<^verbatim>\<open>tileize\<close> not 0) from the initial cursor, given more calls than the image has
  pixels, returns exactly the positions in tile-major order, each position of the image
  once. For an 8 by 8 image this is the row-major order of linear traversal; for a 16
  by 8 image the 64 positions of the left tile come first, then those of the right
  tile.
\<close>

theorem tiled_traversal_tile_major:
  assumes "tileize \<noteq> 0" and "0 < width img" and "0 < height img"
    and "width img mod 8 = 0" and "height img mod 8 = 0"
    and "nat (width img * height img) < fuel"
  shows "traverse fuel img tileize cursor_start = Some (tiled_order (width img) (height img))
    \<and> length (tiled_order (width img) (height img)) = nat (width img * height img)
    \<and> distinct (tiled_order (width img) (height img))
    \<and> set (tiled_order (width img) (height img)) = {0..<height img} \<times> {0..<width img}
    \<and> (width img = 8 \<and> height img = 8 \<longrightarrow>
          traverse fuel img tileize cursor_start = traverse fuel img 0 cursor_start)
    \<and> (width img = 16 \<and> height img = 8 \<longrightarrow>
          traverse fuel img tileize cursor_start = Some (tile_positions 0 0 @ tile_positions 0 8)
          \<and> set (tile_positions 0 0) = {0..7} \<times> {0..7} \<and> set (tile_positions 0 8) = {0..7} \<times> {8..15})"
proof -
  obtain TW TH where W: "width img = 8 * TW" and H: "height img = 8 * TH"
    using assms(4,5) by (metis mod_eq_0_iff_dvd dvd_def)
  with assms(2,3) have pos: "0 < TW" "0 < TH" by simp_all
  note f = tiled_order_facts [OF pos]
  have "walk img tileize \<lparr>cur_r = 8 * 0, cur_c = 0, cur_tr = 0, cur_tc = 0\<rparr>
      (concat (map (\<lambda>ty. concat (map (\<lambda>tx. tile_positions (8 * ty) (8 * tx)) [0..TW - 1]))
         [0..TH - 1]))
      \<lparr>cur_r = 8 * TH, cur_c = 0, cur_tr = 0, cur_tc = 0\<rparr>"
    using pos W H by (intro tiled_image [OF assms(1) _ _ _ pos(1)]) simp_all
  then have w: "walk img tileize cursor_start (tiled_order (width img) (height img))
      \<lparr>cur_r = height img, cur_c = 0, cur_tr = 0, cur_tc = 0\<rparr>"
    by (simp add: cursor_start_def tiled_order_def W H)
  have t: "traverse fuel img tileize cursor_start = Some (tiled_order (width img) (height img))"
    using w by (rule walk_traverse) (use assms(6) f(1) W H in simp_all)
  have one: "traverse fuel img tileize cursor_start = traverse fuel img 0 cursor_start"
    if "width img = 8 \<and> height img = 8"
    using t that linear_traverse [OF assms(2,3,6)] by (simp add: tiled_order_single_tile)
  have two: "traverse fuel img tileize cursor_start = Some (tile_positions 0 0 @ tile_positions 0 8)"
    if "width img = 16 \<and> height img = 8"
    using t that by (simp add: tiled_order_two_tiles)
  have sets: "set (tile_positions 0 0) = {0..7} \<times> {0..7}" "set (tile_positions 0 8) = {0..7} \<times> {8..15}"
    by (simp_all add: set_tile_positions)
  from t f one two sets show ?thesis
    unfolding W H by blast
qed

theorem tiled_traversal_tile_major_witness:
  "(1::int) \<noteq> 0 \<and> 0 < width img_16x8 \<and> 0 < height img_16x8
   \<and> width img_16x8 mod 8 = 0 \<and> height img_16x8 mod 8 = 0
   \<and> nat (width img_16x8 * height img_16x8) < 129
   \<and> traverse 129 img_16x8 1 cursor_start = Some (tile_positions 0 0 @ tile_positions 0 8)
   \<and> length (tile_positions 0 0) = 64"
proof -
  have h: "(1::int) \<noteq> 0" "0 < width img_16x8" "0 < height img_16x8"
    "width img_16x8 mod 8 = 0" "height img_16x8 mod 8 = 0"
    "nat (width img_16x8 * height img_16x8) < 129"
    by (simp_all add: img_16x8_def)
  have d: "width img_16x8 = 16 \<and> height img_16x8 = 8"
    by (simp add: img_16x8_def)
  from tiled_traversal_tile_major [OF h] d h show ?thesis
    by (simp add: length_tile_positions tiled_order_two_tiles)
qed

section \<open>Palette insertion: scan, append, overflow\<close>

lemma unat_inc_below: "(i::u8) < u \<Longrightarrow> unat (i + 1) = unat i + 1"
proof -
  assume "i < u"
  then have "unat i < unat u" by (simp add: word_less_nat_alt)
  moreover have "unat u < 2 ^ 8" using unsigned_less [of u] by simp
  ultimately have "unat i + unat (1::u8) < 2 ^ LENGTH(8)" by simp
  then show ?thesis using unat_add_lem [of i 1] by simp
qed

lemma palette_scan_Some:
  "palette_scan color pal i = Some j \<Longrightarrow>
     unat i \<le> unat j \<and> unat j < unat (used pal) \<and> colors pal (unat j) = color
     \<and> (\<forall>k. unat i \<le> k \<and> k < unat j \<longrightarrow> colors pal k \<noteq> color)"
proof (induction color pal i rule: palette_scan.induct)
  case (1 color pal i)
  show ?case
  proof (cases "i < used pal")
    case False
    with "1.prems" show ?thesis by (simp add: palette_scan.simps [of color pal i])
  next
    case lt: True
    show ?thesis
    proof (cases "colors pal (unat i) = color")
      case True
      with lt "1.prems" have "j = i" by (simp add: palette_scan.simps [of color pal i])
      with lt True show ?thesis by (auto simp add: word_less_nat_alt)
    next
      case False
      with lt "1.prems" have "palette_scan color pal (i + 1) = Some j"
        by (simp add: palette_scan.simps [of color pal i])
      with "1.IH" lt False have ih: "unat (i + 1) \<le> unat j \<and> unat j < unat (used pal)
          \<and> colors pal (unat j) = color
          \<and> (\<forall>k. unat (i + 1) \<le> k \<and> k < unat j \<longrightarrow> colors pal k \<noteq> color)"
        by simp
      have suc: "unat (i + 1) = unat i + 1" using lt by (rule unat_inc_below)
      have "colors pal k \<noteq> color" if "unat i \<le> k" "k < unat j" for k
      proof (cases "k = unat i")
        case True
        with False show ?thesis by simp
      next
        case False
        with that suc ih show ?thesis by simp
      qed
      with ih suc show ?thesis by simp
    qed
  qed
qed

lemma palette_scan_None:
  "palette_scan color pal i = None \<Longrightarrow> unat i \<le> k \<Longrightarrow> k < unat (used pal) \<Longrightarrow> colors pal k \<noteq> color"
proof (induction color pal i rule: palette_scan.induct)
  case (1 color pal i)
  from "1.prems" have lt: "i < used pal"
    by (simp add: word_less_nat_alt)
  with "1.prems" have ne: "colors pal (unat i) \<noteq> color"
    by (auto simp add: palette_scan.simps [of color pal i] split: if_splits)
  with lt "1.prems" have rest: "palette_scan color pal (i + 1) = None"
    by (simp add: palette_scan.simps [of color pal i])
  have suc: "unat (i + 1) = unat i + 1" using lt by (rule unat_inc_below)
  show ?case
  proof (cases "k = unat i")
    case True
    with ne show ?thesis by simp
  next
    case False
    with "1.prems" suc have "unat (i + 1) \<le> k" by simp
    with "1.IH" [OF lt ne rest] "1.prems" show ?thesis by simp
  qed
qed

lemma palette_scan_first:
  assumes "k < unat (used pal)" and "colors pal k = color"
    and "\<forall>j<k. colors pal j \<noteq> color"
  shows "palette_scan color pal 0 = Some (of_nat k)"
proof (cases "palette_scan color pal 0")
  case None
  from palette_scan_None [OF None, of k] assms show ?thesis by simp
next
  case (Some j)
  note s = palette_scan_Some [OF Some]
  have "unat j = k"
  proof (rule ccontr)
    assume "unat j \<noteq> k"
    then consider "unat j < k" | "k < unat j" by linarith
    then show False
    proof cases
      case 1
      with assms s show False by auto
    next
      case 2
      with assms s show False by auto
    qed
  qed
  then have "j = of_nat k" by auto
  with Some show ?thesis by simp
qed

lemma insert_palette_found:
  "palette_scan color pal 0 = Some j \<Longrightarrow> insert_palette color pal = Inr (j, pal)"
  by (simp add: insert_palette_def)

lemma insert_palette_appended:
  assumes "palette_scan color pal 0 = None" and "uint (used pal) < uint (max_p pal) - 1"
  shows "insert_palette color pal
    = Inr (used pal, pal\<lparr>colors := (colors pal)(unat (used pal) := color), used := used pal + 1\<rparr>)"
    and "unat (used pal + 1) = unat (used pal) + 1"
proof -
  have "uint (max_p pal) < 2 ^ 8" using uint_lt2p [of "max_p pal"] by simp
  with assms have "uint (used pal) < 254" by simp
  then have lt: "used pal < 254"
    by (simp add: word_less_def)
  then show suc: "unat (used pal + 1) = unat (used pal) + 1" by (rule unat_inc_below)
  have "uint (used pal + 1) = uint (used pal) + 1"
    unfolding uint_nat suc by simp
  then have slot: "uint (used pal + 1) - 1 = uint (used pal)"
    by simp
  have no: "\<not> uint (max_p pal) - 1 \<le> uint (used pal)"
    using assms(2) by simp
  have "insert_palette color pal = Inr (word_of_int (uint (used pal + 1) - 1),
      pal\<lparr>colors := (colors pal)(nat (uint (used pal + 1) - 1) := color), used := used pal + 1\<rparr>)"
    unfolding insert_palette_def Let_def
    by (simp only: assms(1) no option.case if_False)
  then show "insert_palette color pal
    = Inr (used pal, pal\<lparr>colors := (colors pal)(unat (used pal) := color), used := used pal + 1\<rparr>)"
    by (simp only: slot word_of_int_uint nat_uint_eq)
qed

lemma insert_palette_cases:
  assumes "insert_palette color pal = Inr (i, pal')"
  obtains (found) "palette_scan color pal 0 = Some i" "pal' = pal"
  | (appended) "palette_scan color pal 0 = None" "uint (used pal) < uint (max_p pal) - 1"
      "i = used pal"
      "pal' = pal\<lparr>colors := (colors pal)(unat (used pal) := color), used := used pal + 1\<rparr>"
      "unat (used pal + 1) = unat (used pal) + 1"
proof (cases "palette_scan color pal 0")
  case (Some j)
  with assms have "j = i" "pal' = pal" by (simp_all add: insert_palette_def)
  with Some found show ?thesis by simp
next
  case None
  with assms have room: "uint (used pal) < uint (max_p pal) - 1"
    by (auto simp add: insert_palette_def split: if_splits)
  from insert_palette_appended [OF None room] assms appended None room
  show ?thesis by simp
qed


lemma insert_palette_frame:
  assumes "insert_palette color pal = Inr (i, pal')"
  shows "\<forall>j<unat (used pal). colors pal' j = colors pal j"
    and "unat (used pal) \<le> unat (used pal')"
    and "unat (used pal') \<le> unat (used pal) + 1"
    and "max_p pal' = max_p pal"
  using assms by (cases rule: insert_palette_cases; simp)+

lemma insert_palette_result:
  assumes "insert_palette color pal = Inr (i, pal')"
  shows "unat i < unat (used pal') \<and> colors pal' (unat i) = color
    \<and> (\<forall>j<unat i. colors pal' j \<noteq> color)"
  using assms
proof (cases rule: insert_palette_cases)
  case found
  note s = palette_scan_Some [OF found(1)]
  from s found show ?thesis by simp
next
  case appended
  from palette_scan_None [OF appended(1)] appended
  show ?thesis by simp
qed

lemma inserts_frame:
  "inserts pal pal' \<Longrightarrow>
     (\<forall>j<unat (used pal). colors pal' j = colors pal j) \<and> unat (used pal) \<le> unat (used pal')
     \<and> max_p pal' = max_p pal"
proof (induction rule: inserts.induct)
  case (inserts_none pal)
  show ?case by simp
next
  case (inserts_call color pal i pal' pal'')
  from insert_palette_frame [OF inserts_call.hyps(1)] inserts_call.IH
  show ?case by auto
qed

lemma insert_palette_again:
  assumes r: "unat i < unat (used pal)" "colors pal (unat i) = color"
    "\<forall>j<unat i. colors pal j \<noteq> color"
  shows "insert_palette color pal = Inr (i, pal)"
proof -
  from palette_scan_first [OF r] have "palette_scan color pal 0 = Some i" by simp
  then show ?thesis by (rule insert_palette_found)
qed

lemma insert_key_16: "insert_palette 0x7C1F (new_palette 16) = Inr (0, one_color)"
  by (simp add: insert_palette_def new_palette_def palette_scan.simps one_color_def)

lemma insert_red_16: "insert_palette 0x001F one_color = Inr (1, two_colors)"
  by (simp add: insert_palette_def palette_scan.simps one_color_def two_colors_def)

text \<open>
  C5. A color that is in the palette (at a slot \<open>k\<close> below \<open>used\<close>) is found: the call
  returns the index of its first occurrence, the lowest slot that holds it, and leaves
  the palette as it was. And whenever a call returned index \<open>i'\<close>, inserting the same
  color again returns \<open>i'\<close> again and changes nothing.
\<close>

theorem insert_present_color:
  "(k < unat (used pal) \<and> colors pal k = color \<longrightarrow>
      (\<exists>i. insert_palette color pal = Inr (i, pal) \<and> unat i \<le> k
           \<and> colors pal (unat i) = color \<and> (\<forall>j<unat i. colors pal j \<noteq> color)))
   \<and> (insert_palette color pal = Inr (i', pal') \<longrightarrow> insert_palette color pal' = Inr (i', pal'))"
proof (intro conjI impI)
  assume present: "k < unat (used pal) \<and> colors pal k = color"
  obtain j where scan: "palette_scan color pal 0 = Some j"
    using palette_scan_None [of color pal 0 k] present
    by (cases "palette_scan color pal 0") auto
  note s = palette_scan_Some [OF scan]
  have "unat j \<le> k"
  proof (rule ccontr)
    assume "\<not> unat j \<le> k"
    with s present show False by auto
  qed
  with s insert_palette_found [OF scan]
  show "\<exists>i. insert_palette color pal = Inr (i, pal) \<and> unat i \<le> k
           \<and> colors pal (unat i) = color \<and> (\<forall>j<unat i. colors pal j \<noteq> color)"
    by auto
next
  assume "insert_palette color pal = Inr (i', pal')"
  from insert_palette_result [OF this] show "insert_palette color pal' = Inr (i', pal')"
    by (intro insert_palette_again) simp_all
qed

theorem insert_present_color_witness:
  "(1::nat) < unat (used two_colors) \<and> colors two_colors 1 = 0x001F
   \<and> insert_palette 0x001F two_colors = Inr (1, two_colors)
   \<and> (\<exists>i. insert_palette 0x001F two_colors = Inr (i, two_colors) \<and> unat i \<le> 1
           \<and> colors two_colors (unat i) = 0x001F \<and> (\<forall>j<unat i. colors two_colors j \<noteq> 0x001F))"
proof -
  have h: "(1::nat) < unat (used two_colors) \<and> colors two_colors 1 = 0x001F"
    by (simp add: two_colors_def)
  have e: "insert_palette 0x001F two_colors = Inr (1, two_colors)"
    by (simp add: insert_palette_def palette_scan.simps two_colors_def)
  from insert_present_color [of 1 two_colors "0x001F" 1 two_colors] h e
  show ?thesis by simp
qed

lemma insert_new_color:
  assumes "palette_scan color pal 0 = None"
  shows "uint (used pal) < uint (max_p pal) - 1 \<Longrightarrow>
           insert_palette color pal = Inr (used pal,
             pal\<lparr>colors := (colors pal)(unat (used pal) := color), used := used pal + 1\<rparr>)"
    and "uint (max_p pal) - 1 \<le> uint (used pal) \<Longrightarrow> insert_palette color pal = Inl PaletteOverflow"
  using assms insert_palette_appended(1) [of color pal]
  by (simp_all add: insert_palette_def)

text \<open>
  C4. The palette that \<^verbatim>\<open>main\<close> creates for 256 colors has \<^verbatim>\<open>max\<close> = 0: 256 does not
  fit the \<^verbatim>\<open>unsigned char\<close>. The test \<^verbatim>\<open>used >= max - 1\<close> is then \<open>0 \<ge> -1\<close>, and the
  first insertion into the empty palette, of any color, ends in \<open>PaletteOverflow\<close>,
  although the size 0 is below \<open>256 - 1\<close>.
\<close>

theorem new_palette_256_overflows:
  "insert_palette color (new_palette 256) = Inl PaletteOverflow"
  by (simp add: insert_palette_def new_palette_def palette_scan.simps)

section \<open>Runs of the example images\<close>

lemma key_ff00ff: "hex24_to_15 ''#ff00ff'' = Inr 0x7C1F"
  by (simp add: hex24_to_15_def c_char_def strtol16_def hex_value_def isspace_def Let_def)

lemma quantize_examples:
  "quantize 255 0 0 = 0x001F" "quantize 255 0 255 = 0x7C1F" "quantize 0 0 0 = 0"
  by (simp_all add: quantize_def)

lemma pixels_2x2:
  "pixel_at img_2x2 (0, 0) = Some (255, 0, 0)" "pixel_at img_2x2 (0, 1) = Some (255, 0, 0)"
  "pixel_at img_2x2 (1, 0) = Some (255, 0, 0)" "pixel_at img_2x2 (1, 1) = Some (255, 0, 255)"
  by (simp_all add: pixel_at_def byte_at_def img_2x2_def)

lemma inserts_2x2:
  "insert_palette 0x001F two_colors = Inr (1, two_colors)"
  "insert_palette 0x7C1F two_colors = Inr (0, two_colors)"
  by (simp_all add: insert_palette_def palette_scan.simps two_colors_def)

lemma dims_2x2: "width img_2x2 = 2" "height img_2x2 = 2"
  by (simp_all add: img_2x2_def)

lemma loop_2x2: "png2gba_loop 5 img_2x2 16 0 start_16 = Some (Inr end_2x2)"
  by (simp add: numeral_eq_Suc next_byte_def pixel_body_def pixels_2x2 quantize_examples
      insert_red_16 inserts_2x2 start_16_def end_2x2_def cursor_start_def TILE_SIZE_def Let_def
      dims_2x2)

lemma png2gba_2x2: "png2gba 5 img_2x2 ''img'' 16 0 start_16 = Some (Inr final_2x2)"
proof -
  have "start_16\<lparr>colors_this_line := 0\<rparr> = start_16" by (simp add: start_16_def)
  then show ?thesis
    by (simp add: png2gba_def loop_2x2 final_2x2_def Let_def) (simp add: end_2x2_def)
qed

lemma main_2x2: "main_run 5 args_16 img_2x2 ''img'' = Some (Inr final_2x2)"
  using png2gba_2x2
  by (simp add: main_run_def verify_arguments_def args_16_def key_ff00ff insert_key_16 start_16_def)

lemma pixels_16x1:
  "pixel_at img_16x1 (0, 0) = Some (0, 0, 0)" "pixel_at img_16x1 (0, 1) = Some (0, 0, 0)"
  "pixel_at img_16x1 (0, 2) = Some (0, 0, 0)" "pixel_at img_16x1 (0, 3) = Some (0, 0, 0)"
  "pixel_at img_16x1 (0, 4) = Some (0, 0, 0)" "pixel_at img_16x1 (0, 5) = Some (0, 0, 0)"
  "pixel_at img_16x1 (0, 6) = Some (0, 0, 0)" "pixel_at img_16x1 (0, 7) = Some (0, 0, 0)"
  by (simp_all add: pixel_at_def byte_at_def img_16x1_def)

lemma inserts_16x1:
  "insert_palette 0 one_color = Inr (1, black_second)"
  "insert_palette 0 black_second = Inr (1, black_second)"
  by (simp_all add: insert_palette_def palette_scan.simps one_color_def black_second_def)

lemma dims_16x1: "width img_16x1 = 16" "height img_16x1 = 1"
  by (simp_all add: img_16x1_def)

lemma loop_16x1: "png2gba_loop 9 img_16x1 16 1 start_16 = Some (Inr end_16x1)"
  by (simp add: numeral_eq_Suc next_byte_def pixel_body_def pixels_16x1 quantize_examples
      inserts_16x1 start_16_def end_16x1_def cursor_start_def TILE_SIZE_def Let_def dims_16x1)

lemma main_16x1:
  "main_run 9 (args_16\<lparr>arg_tileize := 1\<rparr>) img_16x1 ''img'' = Some (Inr final_16x1)"
proof -
  have "start_16\<lparr>colors_this_line := 0\<rparr> = start_16" by (simp add: start_16_def)
  then have "png2gba 9 img_16x1 ''img'' 16 1 start_16 = Some (Inr final_16x1)"
    by (simp add: png2gba_def loop_16x1 final_16x1_def Let_def) (simp add: end_16x1_def)
  then show ?thesis
    by (simp add: main_run_def verify_arguments_def args_16_def key_ff00ff insert_key_16
        start_16_def)
qed

lemma png2gba_direct_2x2: "png2gba 5 img_2x2 ''img'' 0 0 start_direct = Some (Inr final_direct)"
  by (simp add: png2gba_def numeral_eq_Suc next_byte_def pixel_body_def pixels_2x2
      quantize_examples start_direct_def final_direct_def cursor_start_def TILE_SIZE_def Let_def
      dims_2x2)

lemma upt_four: "[0..<4] = [0, 1, 2, 3::nat]" and upt_two: "[0..<2] = [0, 1::nat]"
  by (simp_all add: numeral_eq_Suc)

lemma hex_fields:
  "hex_field u 4 n = [hex_digit u (n div 4096 mod 16), hex_digit u (n div 256 mod 16),
     hex_digit u (n div 16 mod 16), hex_digit u (n mod 16)]"
  "hex_field u 2 n = [hex_digit u (n div 16 mod 16), hex_digit u (n mod 16)]"
  by (simp_all add: hex_field_def upt_four upt_two)

lemma text_direct_2x2:
  "file_text (out final_direct) = ''    0x001F, 0x001F, 0x001F, 0x7C1F, \<newline>};\<newline>\<newline>''"
  by (simp add: final_direct_def file_text_def hex_fields hex_digit_def)

lemma text_indexed_2x2:
  "file_text (out end_2x2) = ''    0x01, 0x01, 0x01, 0x00, ''"
  by (simp add: end_2x2_def file_text_def hex_fields hex_digit_def)

section \<open>The conversion loop and the text it writes\<close>

lemma pixel_body_Inr:
  assumes "pixel_body img palette ptr st = Inr st'"
  obtains red green blue w pal' where "pixel_at img ptr = Some (red, green, blue)"
    and "palette = 0 \<Longrightarrow> w = Hex04X (quantize red green blue) \<and> pal' = color_palette st"
    and "palette \<noteq> 0 \<Longrightarrow> \<exists>i. w = Hex02X i
            \<and> insert_palette (quantize red green blue) (color_palette st) = Inr (i, pal')"
    and "st' = st\<lparr>color_palette := pal', colors_this_line := next_count (colors_this_line st),
            out := out st @ line_item (colors_this_line st) w\<rparr>"
proof -
  from assms obtain red green blue where px: "pixel_at img ptr = Some (red, green, blue)"
    by (auto simp add: pixel_body_def split: option.splits)
  let ?color = "quantize red green blue"
  show ?thesis
  proof (cases "palette = 0")
    case True
    with assms px have "st' = st\<lparr>color_palette := color_palette st,
        colors_this_line := next_count (colors_this_line st),
        out := out st @ line_item (colors_this_line st) (Hex04X ?color)\<rparr>"
      by (auto simp add: pixel_body_def Let_def TILE_SIZE_def line_item_def next_count_def)
    with px True that [of red green blue "Hex04X ?color" "color_palette st"] show ?thesis
      by simp
  next
    case False
    with assms px obtain i pal' where
      ins: "insert_palette ?color (color_palette st) = Inr (i, pal')"
      by (auto simp add: pixel_body_def Let_def split: sum.splits)
    with assms px False have "st' = st\<lparr>color_palette := pal',
        colors_this_line := next_count (colors_this_line st),
        out := out st @ line_item (colors_this_line st) (Hex02X i)\<rparr>"
      by (auto simp add: pixel_body_def Let_def TILE_SIZE_def line_item_def next_count_def)
    with px False ins that [of red green blue "Hex02X i" pal'] show ?thesis
      by simp
  qed
qed

lemma inserts_trans: "inserts a b \<Longrightarrow> inserts b c \<Longrightarrow> inserts a c"
  by (induction rule: inserts.induct) (auto intro: inserts.intros)

lemma inserts_one: "insert_palette color pal = Inr (i, pal') \<Longrightarrow> inserts pal pal'"
  by (auto intro: inserts.intros)

lemma pixel_body_inserts:
  assumes "pixel_body img palette ptr st = Inr st'"
  shows "inserts (color_palette st) (color_palette st')" and "cursor st' = cursor st"
  using assms
  by (cases rule: pixel_body_Inr; cases "palette = 0"; auto intro: inserts.intros)+

lemma loop_inserts:
  "png2gba_loop fuel img palette tileize st = Some (Inr st') \<Longrightarrow>
     inserts (color_palette st) (color_palette st')"
proof (induction fuel arbitrary: st)
  case 0
  then show ?case by simp
next
  case (Suc fuel)
  show ?case
  proof (cases "next_byte img tileize (cursor st)")
    case (Pair res cur')
    show ?thesis
    proof (cases res)
      case None
      with Pair Suc.prems show ?thesis by (auto intro: inserts_none)
    next
      case (Some ptr)
      with Pair Suc.prems obtain st1 where
        b: "pixel_body img palette ptr (st\<lparr>cursor := cur'\<rparr>) = Inr st1"
        and l: "png2gba_loop fuel img palette tileize st1 = Some (Inr st')"
        by (auto split: sum.splits)
      from pixel_body_inserts(1) [OF b] Suc.IH [OF l] show ?thesis
        by (auto intro: inserts_trans)
    qed
  qed
qed

section \<open>Stability of the indices\<close>

text \<open>
  C10. A call that returns leaves every slot below the former \<open>used\<close> unchanged, grows
  \<open>used\<close> by at most one and keeps \<open>max\<close>. Hence, once a call returned index \<open>i\<close> for a
  color, after any further calls that return, slot \<open>i\<close> still holds that color and
  inserting the color still returns \<open>i\<close>; and the palette at the end of the pixel loop
  comes from the palette of any state of the loop by such calls.
\<close>

theorem insert_keeps_entries:
  "(insert_palette color pal = Inr (i, pal') \<longrightarrow>
      (\<forall>j<unat (used pal). colors pal' j = colors pal j)
      \<and> unat (used pal) \<le> unat (used pal') \<and> unat (used pal') \<le> unat (used pal) + 1
      \<and> max_p pal' = max_p pal)
   \<and> (insert_palette color pal = Inr (i, pal') \<and> inserts pal' pal'' \<longrightarrow>
        colors pal'' (unat i) = color \<and> insert_palette color pal'' = Inr (i, pal''))
   \<and> (png2gba_loop fuel img palette tileize st = Some (Inr st') \<longrightarrow>
        inserts (color_palette st) (color_palette st'))"
proof (intro conjI impI)
  assume a: "insert_palette color pal = Inr (i, pal') \<and> inserts pal' pal''"
  note r = insert_palette_result [of color pal i pal']
  note f = inserts_frame [of pal' pal'']
  from a r f show c: "colors pal'' (unat i) = color" by simp
  from a r f have "unat i < unat (used pal'')" "\<forall>j<unat i. colors pal'' j \<noteq> color"
    by auto
  with c show "insert_palette color pal'' = Inr (i, pal'')"
    by (intro insert_palette_again) simp_all
next
  assume "png2gba_loop fuel img palette tileize st = Some (Inr st')"
  then show "inserts (color_palette st) (color_palette st')"
    by (rule loop_inserts)
qed (use insert_palette_frame in blast)+

theorem insert_keeps_entries_witness:
  "insert_palette 0x7C1F (new_palette 16) = Inr (0, one_color) \<and> inserts one_color two_colors
   \<and> png2gba_loop 5 img_2x2 16 0 start_16 = Some (Inr end_2x2)
   \<and> colors two_colors (unat (0::u8)) = 0x7C1F
   \<and> insert_palette 0x7C1F two_colors = Inr (0, two_colors)
   \<and> unat (used (new_palette 16)) \<le> unat (used one_color)
   \<and> unat (used one_color) \<le> unat (used (new_palette 16)) + 1
   \<and> max_p one_color = max_p (new_palette 16)
   \<and> inserts (color_palette start_16) (color_palette end_2x2)"
proof -
  have later: "inserts one_color two_colors"
    using insert_red_16 inserts_none by (rule inserts_call)
  from insert_keeps_entries [of "0x7C1F" "new_palette 16" 0 one_color two_colors
      5 img_2x2 16 0 start_16 end_2x2]
    insert_key_16 later loop_2x2
  show ?thesis by simp
qed

section \<open>The calls of the loop and their text\<close>

lemma index_of_line_item: "concat (map index_of_call (line_item n w)) = index_of_call w"
  by (simp add: line_item_def)

lemma emitted_indices_append: "emitted_indices (xs @ ys) = emitted_indices xs @ emitted_indices ys"
  by (simp add: emitted_indices_def)

lemma emitted_indices_layout: "emitted_indices (layout n ws) = emitted_indices ws"
  by (induction ws arbitrary: n) (simp_all add: emitted_indices_def index_of_line_item)

lemma loop_trace:
  "png2gba_loop fuel img palette tileize st = Some (Inr st') \<Longrightarrow>
     \<exists>ps ws. traverse fuel img tileize (cursor st) = Some ps \<and> length ws = length ps
       \<and> out st' = out st @ layout (colors_this_line st) ws
       \<and> (\<forall>k<length ps. \<exists>red green blue. pixel_at img (ps ! k) = Some (red, green, blue)
             \<and> (palette = 0 \<longrightarrow> ws ! k = Hex04X (quantize red green blue))
             \<and> (palette \<noteq> 0 \<longrightarrow> (\<exists>i pal pal'. ws ! k = Hex02X i
                   \<and> inserts (color_palette st) pal
                   \<and> insert_palette (quantize red green blue) pal = Inr (i, pal')
                   \<and> inserts pal' (color_palette st'))))"
proof (induction fuel arbitrary: st)
  case 0
  then show ?case by simp
next
  case (Suc fuel)
  show ?case
  proof (cases "next_byte img tileize (cursor st)")
    case (Pair res cur')
    show ?thesis
    proof (cases res)
      case None
      with Pair Suc.prems have "st' = st\<lparr>cursor := cur'\<rparr>" by simp
      with Pair None show ?thesis
        by (intro exI [of _ "[]"]) simp
    next
      case (Some ptr)
      with Pair Suc.prems obtain st1 where
        b: "pixel_body img palette ptr (st\<lparr>cursor := cur'\<rparr>) = Inr st1"
        and l: "png2gba_loop fuel img palette tileize st1 = Some (Inr st')"
        by (auto split: sum.splits)
      from b obtain red green blue w pal' where
        px: "pixel_at img ptr = Some (red, green, blue)"
        and direct: "palette = 0 \<Longrightarrow> w = Hex04X (quantize red green blue) \<and> pal' = color_palette st"
        and indexed: "palette \<noteq> 0 \<Longrightarrow> \<exists>i. w = Hex02X i
            \<and> insert_palette (quantize red green blue) (color_palette st) = Inr (i, pal')"
        and st1: "st1 = st\<lparr>cursor := cur', color_palette := pal',
            colors_this_line := next_count (colors_this_line st),
            out := out st @ line_item (colors_this_line st) w\<rparr>"
        by (cases rule: pixel_body_Inr) auto
      from Suc.IH [OF l] obtain ps ws where
        t: "traverse fuel img tileize (cursor st1) = Some ps" and len: "length ws = length ps"
        and o: "out st' = out st1 @ layout (colors_this_line st1) ws"
        and each: "\<forall>k<length ps. \<exists>red green blue. pixel_at img (ps ! k) = Some (red, green, blue)
             \<and> (palette = 0 \<longrightarrow> ws ! k = Hex04X (quantize red green blue))
             \<and> (palette \<noteq> 0 \<longrightarrow> (\<exists>i pal pal'. ws ! k = Hex02X i
                   \<and> inserts (color_palette st1) pal
                   \<and> insert_palette (quantize red green blue) pal = Inr (i, pal')
                   \<and> inserts pal' (color_palette st')))"
        by blast
      have first: "inserts (color_palette st) (color_palette st1)"
        using pixel_body_inserts(1) [OF b] by simp
      have rest: "inserts (color_palette st1) (color_palette st')"
        using l by (rule loop_inserts)
      have t': "traverse (Suc fuel) img tileize (cursor st) = Some (ptr # ps)"
        using Pair Some t st1 by simp
      have o': "out st' = out st @ layout (colors_this_line st) (w # ws)"
        using o st1 by simp
      have each': "\<exists>red green blue. pixel_at img ((ptr # ps) ! k) = Some (red, green, blue)
             \<and> (palette = 0 \<longrightarrow> (w # ws) ! k = Hex04X (quantize red green blue))
             \<and> (palette \<noteq> 0 \<longrightarrow> (\<exists>i pal pal'. (w # ws) ! k = Hex02X i
                   \<and> inserts (color_palette st) pal
                   \<and> insert_palette (quantize red green blue) pal = Inr (i, pal')
                   \<and> inserts pal' (color_palette st')))"
        if "k < length (ptr # ps)" for k
      proof (cases k)
        case 0
        have "\<exists>i pal pal'. w = Hex02X i \<and> inserts (color_palette st) pal
            \<and> insert_palette (quantize red green blue) pal = Inr (i, pal')
            \<and> inserts pal' (color_palette st')" if "palette \<noteq> 0"
        proof -
          from indexed [OF that] obtain i where "w = Hex02X i"
            "insert_palette (quantize red green blue) (color_palette st) = Inr (i, pal')"
            by blast
          moreover have "inserts pal' (color_palette st')" using rest st1 by simp
          ultimately show ?thesis using inserts_none by blast
        qed
        with 0 px direct show ?thesis by auto
      next
        case (Suc j)
        with that have "j < length ps" by simp
        with each obtain red green blue where
          p: "pixel_at img (ps ! j) = Some (red, green, blue)"
          and d: "palette = 0 \<longrightarrow> ws ! j = Hex04X (quantize red green blue)"
          and x: "palette \<noteq> 0 \<longrightarrow> (\<exists>i pal pal'. ws ! j = Hex02X i
                   \<and> inserts (color_palette st1) pal
                   \<and> insert_palette (quantize red green blue) pal = Inr (i, pal')
                   \<and> inserts pal' (color_palette st'))"
          by blast
        from x first have "palette \<noteq> 0 \<longrightarrow> (\<exists>i pal pal'. ws ! j = Hex02X i
                   \<and> inserts (color_palette st) pal
                   \<and> insert_palette (quantize red green blue) pal = Inr (i, pal')
                   \<and> inserts pal' (color_palette st'))"
          by (blast intro: inserts_trans)
        with Suc p d show ?thesis by auto
      qed
      from t' len o' each' show ?thesis
        by (intro exI [of _ "ptr # ps"] exI [of _ "w # ws"]) simp
    qed
  qed
qed

lemma file_text_append: "file_text (xs @ ys) = file_text xs @ file_text ys"
  by (simp add: file_text_def)

lemma file_text_layout:
  "file_text (layout n ws) = wrap 8 n (map (\<lambda>w. render w @ '', '') ws)"
  by (induction ws arbitrary: n)
    (simp_all add: file_text_def line_item_def next_count_def)

lemma file_text_simps:
  "file_text [] = []" "file_text (w # ws) = render w @ file_text ws"
  "file_text (xs @ ys) = file_text xs @ file_text ys"
  by (simp_all add: file_text_def)

lemma table_entries_simps:
  "table_entries [] = []" "table_entries (w # ws) = entry_of_call w @ table_entries ws"
  "table_entries (xs @ ys) = table_entries xs @ table_entries ys"
  by (simp_all add: table_entries_def)

lemma emitted_indices_simps:
  "emitted_indices [] = []" "emitted_indices (w # ws) = index_of_call w @ emitted_indices ws"
  "emitted_indices (xs @ ys) = emitted_indices xs @ emitted_indices ys"
  by (simp_all add: emitted_indices_def)

lemma palette_table_calls:
  "0 \<le> i \<Longrightarrow> i \<le> 256 \<Longrightarrow>
     file_text (palette_table p i n ws)
       = file_text ws @ wrap 9 n (map (\<lambda>j. table_entry p (nat j)) [i..255])
     \<and> table_entries (palette_table p i n ws) = table_entries ws @ map (\<lambda>j. colors p (nat j)) [i..255]
     \<and> emitted_indices (palette_table p i n ws) = emitted_indices ws"
proof (induction "nat (256 - i)" arbitrary: i n ws)
  case 0
  then have "i = 256" by simp
  then show ?case
    by (simp add: palette_table.simps [of p 256 n ws] PALETTE_MAX_def)
next
  case (Suc m)
  then have lt: "i < 256" by simp
  then have list: "[i..255] = i # [i + 1..255]" by (simp add: upto_rec1)
  have m: "m = nat (256 - (i + 1))" using Suc.hyps(2) by simp
  have range: "0 \<le> i + 1" "i + 1 \<le> 256" using Suc.prems lt by simp_all
  note ih = Suc.hyps(1) [OF m range]
  define ws1 where "ws1 = (if n = 0 then ws @ [Text ''    ''] else ws)
      @ [Hex04x (colors p (nat i))] @ (if i \<noteq> 255 then [Text '', ''] else [])"
  have f1: "file_text ws1 = file_text ws @ (if n = 0 then ''    '' else []) @ table_entry p (nat i)"
    using Suc.prems by (auto simp add: ws1_def file_text_simps table_entry_def PALETTE_MAX_def)
  have e1: "table_entries ws1 = table_entries ws @ [colors p (nat i)]"
    by (simp add: ws1_def table_entries_simps)
  have x1: "emitted_indices ws1 = emitted_indices ws"
    by (simp add: ws1_def emitted_indices_simps)
  show ?case
  proof (cases "n + 1 > 8")
    case True
    with lt have eq: "palette_table p i n ws = palette_table p (i + 1) 0 (ws1 @ [Text ''\<newline>''])"
      by (simp add: palette_table.simps [of p i n ws] PALETTE_MAX_def Let_def ws1_def)
    from True show ?thesis
      unfolding eq list
      by (simp add: ih [of 0 "ws1 @ [Text ''\<newline>'']"] f1 e1 x1 file_text_simps
          table_entries_simps emitted_indices_simps)
  next
    case False
    with lt have eq: "palette_table p i n ws = palette_table p (i + 1) (n + 1) ws1"
      by (simp add: palette_table.simps [of p i n ws] PALETTE_MAX_def Let_def ws1_def)
    from False show ?thesis
      unfolding eq list
      by (simp add: ih [of "n + 1" ws1] f1 e1 x1)
  qed
qed

lemma wrap_within:
  "0 \<le> n \<Longrightarrow> n + int (length xs) < L \<Longrightarrow>
     wrap L n xs = (if n = 0 \<and> xs \<noteq> [] then ''    '' else []) @ concat xs"
  by (induction xs arbitrary: n) auto

lemma wrap_full:
  "0 \<le> n \<Longrightarrow> n + int (length xs) = L \<Longrightarrow> xs \<noteq> [] \<Longrightarrow>
     wrap L n (xs @ ys) = (if n = 0 then ''    '' else []) @ concat xs @ ''\<newline>'' @ wrap L 0 ys"
proof (induction xs arbitrary: n)
  case Nil
  then show ?case by simp
next
  case (Cons x xs)
  show ?case
  proof (cases "xs = []")
    case True
    with Cons.prems show ?thesis by simp
  next
    case False
    with Cons.prems have "\<not> L \<le> n + 1" by (cases xs) auto
    moreover have "wrap L (n + 1) (xs @ ys) = concat xs @ ''\<newline>'' @ wrap L 0 ys"
      using Cons.IH [of "n + 1"] Cons.prems False by simp
    ultimately show ?thesis by simp
  qed
qed

lemma group_lines_short:
  "xs \<noteq> [] \<Longrightarrow> length xs < n \<Longrightarrow> group_lines n xs = ''    '' @ concat xs"
  by (simp add: group_lines_def rows_of.simps [of n xs] rows_of.simps [of n "[]"])

lemma group_lines_long:
  "0 < n \<Longrightarrow> n \<le> length xs \<Longrightarrow>
     group_lines n xs = ''    '' @ concat (take n xs) @ ''\<newline>'' @ group_lines n (drop n xs)"
  by (auto simp add: group_lines_def rows_of.simps [of n xs])

lemma wrap_group_lines: "0 < L \<Longrightarrow> wrap L 0 xs = group_lines (nat L) xs"
proof (induction xs rule: length_induct)
  case (1 xs)
  show ?case
  proof (cases "int (length xs) < L")
    case True
    show ?thesis
    proof (cases "xs = []")
      case True
      then show ?thesis by (simp add: group_lines_def rows_of.simps [of _ "[]"])
    next
      case False
      with True wrap_within [of 0 xs L] group_lines_short [of xs "nat L"]
      show ?thesis by simp
    qed
  next
    case False
    with "1.prems" have long: "nat L \<le> length xs" "0 < nat L" by simp_all
    then have len: "length (take (nat L) xs) = nat L" and ne: "xs \<noteq> []" by auto
    have "wrap L 0 (take (nat L) xs @ drop (nat L) xs)
        = ''    '' @ concat (take (nat L) xs) @ ''\<newline>'' @ wrap L 0 (drop (nat L) xs)"
      using wrap_full [of 0 "take (nat L) xs" L "drop (nat L) xs"] long "1.prems" ne
      by (simp add: len)
    moreover have "wrap L 0 (drop (nat L) xs) = group_lines (nat L) (drop (nat L) xs)"
      using "1.IH" long "1.prems" by simp
    ultimately show ?thesis
      using group_lines_long [OF long(2,1)] by simp
  qed
qed

lemma index_stays:
  assumes "insert_palette color pal = Inr (i, pal')" and "inserts pal' pal''"
  shows "colors pal'' (unat i) = color" and "insert_palette color pal'' = Inr (i, pal'')"
proof -
  note r = insert_palette_result [OF assms(1)]
  note f = inserts_frame [OF assms(2)]
  from r f show c: "colors pal'' (unat i) = color" by simp
  from r f have "unat i < unat (used pal'')" "\<forall>j<unat i. colors pal'' j \<noteq> color"
    by auto
  with c show "insert_palette color pal'' = Inr (i, pal'')"
    by (intro insert_palette_again) simp_all
qed

lemma all_indices:
  "(\<And>k. k < length ws \<Longrightarrow> \<exists>i. ws ! k = Hex02X i) \<Longrightarrow> ws = map Hex02X (emitted_indices ws)"
proof (induction ws)
  case Nil
  then show ?case by (simp add: emitted_indices_simps)
next
  case (Cons w ws)
  from Cons.prems [of 0] obtain i where w: "w = Hex02X i" by auto
  have "\<exists>i. ws ! k = Hex02X i" if "k < length ws" for k
    using Cons.prems [of "Suc k"] that by simp
  from Cons.IH [OF this] w show ?case
    by (simp add: emitted_indices_simps)
qed

lemma png2gba_Inr:
  assumes "png2gba fuel img name palette tileize st = Some (Inr st')"
  obtains st1 where "png2gba_loop fuel img palette tileize (st\<lparr>colors_this_line := 0\<rparr>) = Some (Inr st1)"
    and "color_palette st' = color_palette st1"
    and "palette = 0 \<Longrightarrow> out st' = out st1 @ [Text ''\<newline>};\<newline>\<newline>'']"
    and "palette \<noteq> 0 \<Longrightarrow> out st' =
       palette_table (color_palette st1) 0 0
         (out st1 @ [Text ''\<newline>};\<newline>\<newline>'',
                     Text (''const unsigned short '' @ name @ ''_palette [] = {\<newline>'')])
       @ [Text ''\<newline>};\<newline>\<newline>'']"
  using assms
  by (auto simp add: png2gba_def Let_def split: option.splits sum.splits if_splits)

text \<open>
  C9. In indexed mode (\<^verbatim>\<open>palette\<close> not 0), when \<^verbatim>\<open>png2gba\<close> completes, it wrote one index
  for each position that the traversal returned, in that order, and for every such
  pixel the entry of the final palette at the index written for it is the pixel's
  quantized color.
\<close>

theorem emitted_index_round_trip:
  assumes "palette \<noteq> 0" and "png2gba fuel img name palette tileize st = Some (Inr st')"
  shows "\<exists>ps ixs. traverse fuel img tileize (cursor st) = Some ps
     \<and> emitted_indices (out st') = emitted_indices (out st) @ ixs \<and> length ixs = length ps
     \<and> (\<forall>k<length ps. \<exists>red green blue. pixel_at img (ps ! k) = Some (red, green, blue)
           \<and> colors (color_palette st') (unat (ixs ! k)) = quantize red green blue)"
proof -
  from assms(2) obtain st1 where
    l: "png2gba_loop fuel img palette tileize (st\<lparr>colors_this_line := 0\<rparr>) = Some (Inr st1)"
    and p: "color_palette st' = color_palette st1"
    and o: "out st' = palette_table (color_palette st1) 0 0
         (out st1 @ [Text ''\<newline>};\<newline>\<newline>'',
                     Text (''const unsigned short '' @ name @ ''_palette [] = {\<newline>'')])
       @ [Text ''\<newline>};\<newline>\<newline>'']"
    using assms(1) by (auto elim: png2gba_Inr)
  from loop_trace [OF l] assms(1) obtain ps ws where
    t: "traverse fuel img tileize (cursor st) = Some ps" and len: "length ws = length ps"
    and o1: "out st1 = out st @ layout 0 ws"
    and each: "\<forall>k<length ps. \<exists>red green blue. pixel_at img (ps ! k) = Some (red, green, blue)
         \<and> (\<exists>i pal pal'. ws ! k = Hex02X i \<and> inserts (color_palette st) pal
               \<and> insert_palette (quantize red green blue) pal = Inr (i, pal')
               \<and> inserts pal' (color_palette st1))"
    by auto
  let ?ixs = "emitted_indices ws"
  have ws: "ws = map Hex02X ?ixs"
    using each len by (intro all_indices) auto
  then have len': "length ?ixs = length ps"
    using len by (metis length_map)
  have "emitted_indices (out st') = emitted_indices (out st1)"
    unfolding o using palette_table_calls [of 0] by (simp add: emitted_indices_simps)
  then have e: "emitted_indices (out st') = emitted_indices (out st) @ ?ixs"
    by (simp add: o1 emitted_indices_simps emitted_indices_layout)
  have "\<exists>red green blue. pixel_at img (ps ! k) = Some (red, green, blue)
      \<and> colors (color_palette st') (unat (?ixs ! k)) = quantize red green blue"
    if k: "k < length ps" for k
  proof -
    from each k obtain red green blue i pal pal' where
      px: "pixel_at img (ps ! k) = Some (red, green, blue)" and w: "ws ! k = Hex02X i"
      and ins: "insert_palette (quantize red green blue) pal = Inr (i, pal')"
      and later: "inserts pal' (color_palette st1)"
      by blast
    have "ws ! k = Hex02X (?ixs ! k)"
      using ws k len' by (metis nth_map)
    with w have "?ixs ! k = i" by simp
    with index_stays(1) [OF ins later] px p show ?thesis by simp
  qed
  with t e len' show ?thesis by blast
qed

theorem emitted_index_round_trip_witness:
  "(16::int) \<noteq> 0 \<and> png2gba 5 img_2x2 ''img'' 16 0 start_16 = Some (Inr final_2x2)
   \<and> (\<exists>ps ixs. traverse 5 img_2x2 0 (cursor start_16) = Some ps
     \<and> emitted_indices (out final_2x2) = emitted_indices (out start_16) @ ixs
     \<and> length ixs = length ps
     \<and> (\<forall>k<length ps. \<exists>red green blue. pixel_at img_2x2 (ps ! k) = Some (red, green, blue)
           \<and> colors (color_palette final_2x2) (unat (ixs ! k)) = quantize red green blue))"
proof -
  have h: "(16::int) \<noteq> 0" by simp
  from emitted_index_round_trip [OF h png2gba_2x2] h png2gba_2x2 show ?thesis
    by blast
qed

lemma map_nat_upto: "map nat [0..int n - 1] = [0..<n]"
proof (induction n)
  case 0
  then show ?case by simp
next
  case (Suc n)
  have "[0..int (Suc n) - 1] = [0..int n - 1] @ [int n]"
    using upto_rec2 [of 0 "int n"] by simp
  with Suc show ?case by simp
qed

lemma map_upto_palette: "map (\<lambda>j. f (nat j)) [0..255] = map f [0..<PALETTE_MAX]"
proof -
  have "map f (map nat [0..int 256 - 1]) = map f [0..<256]"
    by (simp only: map_nat_upto)
  then show ?thesis by (simp add: PALETTE_MAX_def comp_def)
qed

lemma palette_table_whole:
  "file_text (palette_table p 0 0 ws)
     = file_text ws @ group_lines 9 (map (table_entry p) [0..<PALETTE_MAX])"
  "table_entries (palette_table p 0 0 ws) = table_entries ws @ map (colors p) [0..<PALETTE_MAX]"
  "emitted_indices (palette_table p 0 0 ws) = emitted_indices ws"
  using palette_table_calls [of 0 p 0 ws] wrap_group_lines [of 9]
  by (simp_all add: map_upto_palette)

lemma inserts_zero_beyond:
  "inserts pal pal' \<Longrightarrow> \<forall>i\<ge>unat (used pal). colors pal i = 0
     \<Longrightarrow> \<forall>i\<ge>unat (used pal'). colors pal' i = 0"
proof (induction rule: inserts.induct)
  case (inserts_none pal)
  then show ?case by simp
next
  case (inserts_call color pal i pal' pal'')
  from inserts_call.hyps(1) have "\<forall>i\<ge>unat (used pal'). colors pal' i = 0"
    using inserts_call.prems by (cases rule: insert_palette_cases) auto
  then show ?case by (rule inserts_call.IH)
qed

lemma table_entries_layout:
  "(\<And>k. k < length ws \<Longrightarrow> entry_of_call (ws ! k) = []) \<Longrightarrow> table_entries (layout n ws) = []"
proof (induction ws arbitrary: n)
  case Nil
  then show ?case by (simp add: table_entries_simps)
next
  case (Cons w ws)
  from Cons.prems [of 0] have w: "entry_of_call w = []" by simp
  have "entry_of_call (ws ! k) = []" if "k < length ws" for k
    using Cons.prems [of "Suc k"] that by simp
  from Cons.IH [OF this] w show ?case
    by (simp add: table_entries_simps line_item_def)
qed

text \<open>
  C7, amended. When \<^verbatim>\<open>png2gba\<close> completes, it wrote one value for each position of the
  traversal: the \<^verbatim>\<open>"0x%04X"\<close> of the quantized color in direct-color mode, a
  \<^verbatim>\<open>"0x%02X"\<close> of an index in indexed mode, each followed by a comma and a space, in
  lines of 8 values, then the closing of the array. In indexed mode the palette table
  follows, in lines of 9: always \<open>PALETTE_MAX\<close> = 256 slots, whatever \<^verbatim>\<open>max\<close> was chosen,
  each as \<^verbatim>\<open>"0x%04x"\<close>, separated by a comma and a space. The slots from \<^verbatim>\<open>used\<close> on
  are zero at the end if they were zero at the start.
\<close>

theorem emitter_layout:
  assumes "png2gba fuel img name palette tileize st = Some (Inr st')"
  shows "\<exists>ps ws. traverse fuel img tileize (cursor st) = Some ps \<and> length ws = length ps
     \<and> (\<forall>k<length ps. \<exists>red green blue. pixel_at img (ps ! k) = Some (red, green, blue)
           \<and> (palette = 0 \<longrightarrow> ws ! k = Hex04X (quantize red green blue))
           \<and> (palette \<noteq> 0 \<longrightarrow> (\<exists>i. ws ! k = Hex02X i)))
     \<and> file_text (out st') =
          file_text (out st) @ group_lines 8 (map (\<lambda>w. render w @ '', '') ws)
          @ ''\<newline>};\<newline>\<newline>''
          @ (if palette = 0 then []
             else ''const unsigned short '' @ name @ ''_palette [] = {\<newline>''
               @ group_lines 9 (map (table_entry (color_palette st')) [0..<PALETTE_MAX])
               @ ''\<newline>};\<newline>\<newline>'')
     \<and> (palette \<noteq> 0 \<longrightarrow>
          table_entries (out st')
            = table_entries (out st) @ map (colors (color_palette st')) [0..<PALETTE_MAX])
     \<and> ((\<forall>i\<ge>unat (used (color_palette st)). colors (color_palette st) i = 0) \<longrightarrow>
          (\<forall>i\<ge>unat (used (color_palette st')). colors (color_palette st') i = 0))"
proof (rule png2gba_Inr [OF assms])
  fix st1
  assume l: "png2gba_loop fuel img palette tileize (st\<lparr>colors_this_line := 0\<rparr>) = Some (Inr st1)"
    and p: "color_palette st' = color_palette st1"
    and direct: "palette = 0 \<Longrightarrow> out st' = out st1 @ [Text ''\<newline>};\<newline>\<newline>'']"
    and indexed: "palette \<noteq> 0 \<Longrightarrow> out st' =
       palette_table (color_palette st1) 0 0
         (out st1 @ [Text ''\<newline>};\<newline>\<newline>'',
                     Text (''const unsigned short '' @ name @ ''_palette [] = {\<newline>'')])
       @ [Text ''\<newline>};\<newline>\<newline>'']"
  from loop_trace [OF l] obtain ps ws where
    t: "traverse fuel img tileize (cursor st) = Some ps" and len: "length ws = length ps"
    and o1: "out st1 = out st @ layout 0 ws"
    and each: "\<forall>k<length ps. \<exists>red green blue. pixel_at img (ps ! k) = Some (red, green, blue)
         \<and> (palette = 0 \<longrightarrow> ws ! k = Hex04X (quantize red green blue))
         \<and> (palette \<noteq> 0 \<longrightarrow> (\<exists>i pal pal'. ws ! k = Hex02X i \<and> inserts (color_palette st) pal
               \<and> insert_palette (quantize red green blue) pal = Inr (i, pal')
               \<and> inserts pal' (color_palette st1)))"
    by auto
  from each have each': "\<forall>k<length ps. \<exists>red green blue. pixel_at img (ps ! k) = Some (red, green, blue)
           \<and> (palette = 0 \<longrightarrow> ws ! k = Hex04X (quantize red green blue))
           \<and> (palette \<noteq> 0 \<longrightarrow> (\<exists>i. ws ! k = Hex02X i))"
    by blast
  have pixels: "file_text (out st1)
      = file_text (out st) @ group_lines 8 (map (\<lambda>w. render w @ '', '') ws)"
    using wrap_group_lines [of 8] by (simp add: o1 file_text_simps file_text_layout)
  have whole: "file_text (out st') =
          file_text (out st) @ group_lines 8 (map (\<lambda>w. render w @ '', '') ws)
          @ ''\<newline>};\<newline>\<newline>''
          @ (if palette = 0 then []
             else ''const unsigned short '' @ name @ ''_palette [] = {\<newline>''
               @ group_lines 9 (map (table_entry (color_palette st')) [0..<PALETTE_MAX])
               @ ''\<newline>};\<newline>\<newline>'')"
  proof (cases "palette = 0")
    case True
    with direct pixels show ?thesis by (simp add: file_text_simps)
  next
    case False
    with indexed pixels p show ?thesis
      by (simp add: file_text_simps palette_table_whole)
  qed
  have none: "table_entries (layout 0 ws) = []"
  proof (rule table_entries_layout)
    fix k assume "k < length ws"
    with each' len show "entry_of_call (ws ! k) = []"
      by (cases "palette = 0") fastforce+
  qed
  have table: "table_entries (out st')
      = table_entries (out st) @ map (colors (color_palette st')) [0..<PALETTE_MAX]"
    if "palette \<noteq> 0"
    using indexed [OF that] p none
    by (simp add: table_entries_simps palette_table_whole o1)
  have "inserts (color_palette st) (color_palette st')"
    using loop_inserts [OF l] p by simp
  then have zero: "(\<forall>i\<ge>unat (used (color_palette st)). colors (color_palette st) i = 0) \<longrightarrow>
          (\<forall>i\<ge>unat (used (color_palette st')). colors (color_palette st') i = 0)"
    using inserts_zero_beyond by blast
  from t len each' whole table zero show ?thesis by blast
qed

theorem emitter_layout_witness:
  "png2gba 5 img_2x2 ''img'' 16 0 start_16 = Some (Inr final_2x2)
   \<and> (\<exists>ps ws. traverse 5 img_2x2 0 (cursor start_16) = Some ps \<and> length ws = length ps
     \<and> file_text (out final_2x2) =
          file_text (out start_16) @ group_lines 8 (map (\<lambda>w. render w @ '', '') ws)
          @ ''\<newline>};\<newline>\<newline>''
          @ ''const unsigned short '' @ ''img'' @ ''_palette [] = {\<newline>''
          @ group_lines 9 (map (table_entry (color_palette final_2x2)) [0..<PALETTE_MAX])
          @ ''\<newline>};\<newline>\<newline>'')
   \<and> table_entries (out final_2x2) = map (colors (color_palette final_2x2)) [0..<PALETTE_MAX]
   \<and> unat (used (color_palette final_2x2)) = 2
   \<and> colors (color_palette final_2x2) 2 = 0 \<and> colors (color_palette final_2x2) 255 = 0
   \<and> file_text (out end_2x2) = ''    0x01, 0x01, 0x01, 0x00, ''
   \<and> png2gba 5 img_2x2 ''img'' 0 0 start_direct = Some (Inr final_direct)
   \<and> file_text (out final_direct)
       = ''    0x001F, 0x001F, 0x001F, 0x7C1F, \<newline>};\<newline>\<newline>''"
proof -
  have "table_entries (out start_16) = []"
    by (simp add: start_16_def table_entries_simps)
  moreover have "\<forall>i\<ge>unat (used (color_palette start_16)). colors (color_palette start_16) i = 0"
    by (simp add: start_16_def one_color_def)
  moreover have "unat (used (color_palette final_2x2)) = 2"
    by (simp add: final_2x2_def end_2x2_def two_colors_def)
  ultimately have "png2gba 5 img_2x2 ''img'' 16 0 start_16 = Some (Inr final_2x2)
   \<and> (\<exists>ps ws. traverse 5 img_2x2 0 (cursor start_16) = Some ps \<and> length ws = length ps
     \<and> file_text (out final_2x2) =
          file_text (out start_16) @ group_lines 8 (map (\<lambda>w. render w @ '', '') ws)
          @ ''\<newline>};\<newline>\<newline>''
          @ ''const unsigned short '' @ ''img'' @ ''_palette [] = {\<newline>''
          @ group_lines 9 (map (table_entry (color_palette final_2x2)) [0..<PALETTE_MAX])
          @ ''\<newline>};\<newline>\<newline>'')
   \<and> table_entries (out final_2x2) = map (colors (color_palette final_2x2)) [0..<PALETTE_MAX]
   \<and> unat (used (color_palette final_2x2)) = 2
   \<and> colors (color_palette final_2x2) 2 = 0 \<and> colors (color_palette final_2x2) 255 = 0"
    using emitter_layout [OF png2gba_2x2] png2gba_2x2 by auto
  with text_indexed_2x2 png2gba_direct_2x2 text_direct_2x2 show ?thesis
    by (intro conjI) blast+
qed

text \<open>
  C7, as stated, fails for 16 colors: the run \<^verbatim>\<open>-p16\<close> of the 2 by 2 image completes
  with a palette table of 256 slots, not of the 16 that were chosen.
\<close>

theorem palette_table_256_slots_for_16:
  "main_run 5 args_16 img_2x2 ''img'' = Some (Inr final_2x2)
   \<and> arg_palette args_16 = 16 \<and> max_p (color_palette final_2x2) = 16
   \<and> length (table_entries (out final_2x2)) = 256
   \<and> length (table_entries (out final_2x2)) \<noteq> 16"
proof -
  have "table_entries (out final_2x2) = map (colors two_colors) [0..<PALETTE_MAX]"
    by (simp add: final_2x2_def end_2x2_def table_entries_simps palette_table_whole)
  then have "length (table_entries (out final_2x2)) = 256"
    by (simp add: PALETTE_MAX_def)
  with main_2x2 show ?thesis
    by (simp add: args_16_def final_2x2_def end_2x2_def two_colors_def)
qed

section \<open>Tiled mode and the dimensions of the image\<close>

text \<open>
  Tiled traversal of an image of any positive width and height: after the complete
  tile rows the cursor is at the first row below them with \<^verbatim>\<open>tr\<close> = 0; each further row
  gives its first 8 columns and increments \<^verbatim>\<open>r\<close> and \<^verbatim>\<open>tr\<close>, until \<^verbatim>\<open>r\<close> is the height.
\<close>

lemma tiled_partial_rows:
  assumes "tileize \<noteq> 0" and "0 < width img" and "height img = r0 + rem" and "rem \<le> 7"
  shows "0 \<le> tr \<Longrightarrow> tr \<le> rem \<Longrightarrow>
    walk img tileize \<lparr>cur_r = r0 + tr, cur_c = 0, cur_tr = tr, cur_tc = 0\<rparr>
      (concat (map (\<lambda>r. map (Pair r) [0..7]) [r0 + tr..height img - 1]))
      \<lparr>cur_r = height img, cur_c = 0, cur_tr = rem, cur_tc = 0\<rparr>"
proof (induction "nat (rem - tr)" arbitrary: tr)
  case 0
  then have "tr = rem" by simp
  then show ?case using assms(3) by (auto intro: walk_nil)
next
  case (Suc n)
  then have lt: "tr < rem" by simp
  then have list: "[r0 + tr..height img - 1] = (r0 + tr) # [r0 + (tr + 1)..height img - 1]"
    using assms(3) by (simp add: upto_rec1 add.assoc)
  have ne: "r0 + tr \<noteq> height img" using assms(3) lt by simp
  have "tr \<le> 7" using lt assms(4) by simp
  from tiled_row [OF assms(1) ne assms(2) this, of 0] lt assms(4)
  have row: "walk img tileize \<lparr>cur_r = r0 + tr, cur_c = 0, cur_tr = tr, cur_tc = 0\<rparr>
      (map (Pair (r0 + tr)) [0..7])
      \<lparr>cur_r = r0 + (tr + 1), cur_c = 0, cur_tr = tr + 1, cur_tc = 0\<rparr>"
    by (simp add: row_end_def add.assoc)
  have "n = nat (rem - (tr + 1))" using Suc.hyps(2) by simp
  from Suc.hyps(1) [OF this] lt Suc.prems
  have rest: "walk img tileize \<lparr>cur_r = r0 + (tr + 1), cur_c = 0, cur_tr = tr + 1, cur_tc = 0\<rparr>
      (concat (map (\<lambda>r. map (Pair r) [0..7]) [r0 + (tr + 1)..height img - 1]))
      \<lparr>cur_r = height img, cur_c = 0, cur_tr = rem, cur_tc = 0\<rparr>"
    by simp
  from walk_append [OF row rest] show ?case unfolding list by simp
qed

lemma tiled_walk_any:
  assumes "tileize \<noteq> 0" and "0 < width img" and "0 < height img"
  shows "walk img tileize cursor_start (tiled_visits (width img) (height img))
    \<lparr>cur_r = height img, cur_c = 0, cur_tr = height img mod 8, cur_tc = 0\<rparr>"
proof -
  let ?TW = "(width img + 7) div 8" and ?TH = "height img div 8"
  have tw: "8 * (?TW - 1) < width img" "width img \<le> 8 * ?TW" "0 < ?TW"
    using assms(2) by presburger+
  have th: "8 * ?TH \<le> height img" "0 \<le> ?TH"
    using assms(3) by presburger+
  have full: "walk img tileize \<lparr>cur_r = 8 * 0, cur_c = 0, cur_tr = 0, cur_tc = 0\<rparr>
      (concat (map (\<lambda>ty. concat (map (\<lambda>tx. tile_positions (8 * ty) (8 * tx)) [0..?TW - 1]))
         [0..?TH - 1]))
      \<lparr>cur_r = 8 * ?TH, cur_c = 0, cur_tr = 0, cur_tc = 0\<rparr>"
    using th(2) by (intro tiled_image [OF assms(1) tw(1,2) th(1) tw(3)]) simp_all
  have h: "height img = 8 * ?TH + height img mod 8" "height img mod 8 \<le> 7" "0 \<le> height img mod 8"
    by presburger+
  from tiled_partial_rows [OF assms(1,2) h(1,2), of 0] h(3)
  have part: "walk img tileize \<lparr>cur_r = 8 * ?TH, cur_c = 0, cur_tr = 0, cur_tc = 0\<rparr>
      (concat (map (\<lambda>r. map (Pair r) [0..7]) [8 * ?TH..height img - 1]))
      \<lparr>cur_r = height img, cur_c = 0, cur_tr = height img mod 8, cur_tc = 0\<rparr>"
    by simp
  from walk_append [OF full part] show ?thesis
    by (simp add: tiled_visits_def cursor_start_def)
qed

lemma tiled_traverse_any:
  assumes "tileize \<noteq> 0" and "0 < width img" and "0 < height img"
    and "length (tiled_visits (width img) (height img)) < fuel"
  shows "traverse fuel img tileize cursor_start = Some (tiled_visits (width img) (height img))"
  using tiled_walk_any [OF assms(1-3)] by (rule walk_traverse) (use assms(4) in simp_all)

lemma length_tiled_visits:
  assumes "0 < W" and "0 < H"
  shows "length (tiled_visits W H) = nat (64 * ((W + 7) div 8) * (H div 8) + 8 * (H mod 8))"
proof -
  have tw: "0 < (W + 7) div 8" and th: "0 \<le> H div 8" and r: "0 \<le> H mod 8"
    using assms by presburger+
  have full: "length (concat (map (\<lambda>ty. concat (map (\<lambda>tx. tile_positions (8 * ty) (8 * tx))
      [0..(W + 7) div 8 - 1])) [0..H div 8 - 1])) = nat (H div 8) * (nat ((W + 7) div 8) * 64)"
    by (subst length_concat_const [where n = "nat ((W + 7) div 8) * 64"])
      (use tw th in \<open>simp_all add: length_concat_const [where n = 64] length_tile_positions\<close>)
  have "H - 1 - 8 * (H div 8) + 1 = H mod 8" by presburger
  then have part: "length (concat (map (\<lambda>r. map (Pair r) [0..7]) [8 * (H div 8)..H - 1]))
      = nat (H mod 8) * 8"
    by (subst length_concat_const [where n = 8]) simp_all
  have "length (tiled_visits W H) = nat (H div 8) * (nat ((W + 7) div 8) * 64) + nat (H mod 8) * 8"
    unfolding tiled_visits_def by (simp only: length_append full part)
  also have "\<dots> = nat (64 * ((W + 7) div 8) * (H div 8) + 8 * (H mod 8))"
    using tw th r by (simp add: nat_add_distrib nat_mult_distrib)
  finally show ?thesis .
qed

lemma tiled_visits_multiples:
  "W mod 8 = 0 \<Longrightarrow> H mod 8 = 0 \<Longrightarrow> tiled_visits W H = tiled_order W H"
proof -
  assume a: "W mod 8 = 0" "H mod 8 = 0"
  then have "(W + 7) div 8 = W div 8" "8 * (H div 8) = H" by presburger+
  then show ?thesis by (simp add: tiled_visits_def tiled_order_def)
qed

lemma tiled_visits_16x1: "tiled_visits 16 1 = map (Pair 0) [0..7]"
  by (simp add: tiled_visits_def upto.simps)

text \<open>
  C8, as stated, fails: the tiled run \<^verbatim>\<open>-p16 -t\<close> of the 16 by 1 image, whose height is
  not a multiple of 8, is not rejected. It completes, after writing the indices of the
  8 pixels of the left half of the row, and never visits the right half.
\<close>

theorem tiled_16x1_not_rejected:
  "arg_tileize (args_16\<lparr>arg_tileize := 1\<rparr>) \<noteq> 0 \<and> height img_16x1 mod 8 \<noteq> 0
   \<and> main_run 9 (args_16\<lparr>arg_tileize := 1\<rparr>) img_16x1 ''img'' = Some (Inr final_16x1)
   \<and> emitted_indices (out final_16x1) = [1, 1, 1, 1, 1, 1, 1, 1]"
proof -
  have "emitted_indices (out final_16x1) = [1, 1, 1, 1, 1, 1, 1, 1]"
    by (simp add: final_16x1_def end_16x1_def emitted_indices_simps palette_table_whole)
  with main_16x1 show ?thesis
    by (simp add: dims_16x1)
qed

text \<open>
  C8, amended. No check of the dimensions is made for tiled mode: the verification of
  the arguments does not look at \<^verbatim>\<open>tileize\<close> (nor at the image), and for every image
  whose height is not 0, whatever its width and height, the first call of the tiled
  traversal returns position \<open>(0, 0)\<close>, every completed traversal starts with it, and
  the first turn of the pixel loop processes that pixel.
\<close>

theorem tiled_mode_starts_whatever_the_dimensions:
  assumes "tileize \<noteq> 0" and "height img \<noteq> 0"
  shows "verify_arguments (args\<lparr>arg_tileize := tileize\<rparr>) = verify_arguments args
    \<and> next_byte img tileize cursor_start
        = (Some (0, 0), \<lparr>cur_r = 0, cur_c = 1, cur_tr = 0, cur_tc = 1\<rparr>)
    \<and> (\<forall>ps. traverse (Suc fuel) img tileize cursor_start = Some ps \<longrightarrow> ps \<noteq> [] \<and> hd ps = (0, 0))
    \<and> (cursor st = cursor_start \<longrightarrow>
         png2gba_loop (Suc fuel) img palette tileize st
           = (case pixel_body img palette (0, 0)
                     (st\<lparr>cursor := \<lparr>cur_r = 0, cur_c = 1, cur_tr = 0, cur_tc = 1\<rparr>\<rparr>) of
                Inl e \<Rightarrow> Some (Inl e)
              | Inr st' \<Rightarrow> png2gba_loop fuel img palette tileize st'))"
proof -
  have n: "next_byte img tileize cursor_start
        = (Some (0, 0), \<lparr>cur_r = 0, cur_c = 1, cur_tr = 0, cur_tc = 1\<rparr>)"
    using assms by (simp add: next_byte_def cursor_start_def Let_def)
  then show ?thesis
    by (auto simp add: verify_arguments_def)
qed

theorem tiled_mode_starts_witness:
  "(1::int) \<noteq> 0 \<and> height img_16x1 \<noteq> 0 \<and> height img_16x1 mod 8 \<noteq> 0
   \<and> next_byte img_16x1 1 cursor_start
        = (Some (0, 0), \<lparr>cur_r = 0, cur_c = 1, cur_tr = 0, cur_tc = 1\<rparr>)"
proof -
  have h: "(1::int) \<noteq> 0" "height img_16x1 \<noteq> 0" by (simp_all add: dims_16x1)
  from tiled_mode_starts_whatever_the_dimensions [OF h] h show ?thesis
    by (simp add: dims_16x1)
qed

section \<open>The colorkey in a palette of 16\<close>

text \<open>
  For a valid colorkey \<^verbatim>\<open>hex24_to_15\<close> returns the quantized color of its three bytes.
  In a run for 16 colors that completes, this color is in slot 0 of the final palette,
  and every pixel with this quantized color got index 0.
\<close>

lemma hex_value_range: "hex_value ch = Some v \<Longrightarrow> 0 \<le> v \<and> v < 16"
  by (auto simp add: hex_value_def Let_def split: if_splits)

lemma hex_value_plain:
  assumes "hex_value ch = Some v"
  shows "ch \<noteq> CHR 0x00" "\<not> isspace ch" "ch \<noteq> CHR ''-''" "ch \<noteq> CHR ''+''"
  using assms
  by (auto simp add: hex_value_def isspace_def Let_def split: if_splits)

lemma strtol16_two_digits:
  assumes "hex_value a = Some va" and "hex_value b = Some vb"
  shows "strtol16 [a, b] = 16 * va + vb"
  using assms hex_value_plain [OF assms(1)] hex_value_plain [OF assms(2)]
  by (simp add: strtol16_def Let_def)

lemma pack_bytes:
  assumes "0 \<le> r" "r < 256" "0 \<le> g" "g < 256" "0 \<le> b" "b < 256"
  shows "quantize (word_of_int r) (word_of_int g) (word_of_int b)
    = word_of_int (push_bit 10 (drop_bit 3 b)) + word_of_int (push_bit 5 (drop_bit 3 g))
        + word_of_int (drop_bit 3 r)"
proof -
  have "uint (word_of_int r :: u8) = r" "uint (word_of_int g :: u8) = g" "uint (word_of_int b :: u8) = b"
    using assms by (simp_all add: uint_word_of_int)
  then show ?thesis by (simp add: quantize_def Let_def)
qed

lemma hex24_to_15_valid:
  assumes "valid_colorkey s"
  shows "hex24_to_15 s = Inr (quantize (hex_byte (s ! 1) (s ! 2)) (hex_byte (s ! 3) (s ! 4))
           (hex_byte (s ! 5) (s ! 6)))"
proof -
  from assms obtain c0 c1 c2 c3 c4 c5 c6 where s: "s = [c0, c1, c2, c3, c4, c5, c6]"
    by (auto simp add: valid_colorkey_def length_Suc_conv numeral_eq_Suc)
  with assms obtain v1 v2 v3 v4 v5 v6 where
    v: "hex_value c1 = Some v1" "hex_value c2 = Some v2" "hex_value c3 = Some v3"
       "hex_value c4 = Some v4" "hex_value c5 = Some v5" "hex_value c6 = Some v6"
    by (auto simp add: valid_colorkey_def)
  note r = v [THEN hex_value_range]
  have chars: "those (map (c_char s) [1, 2, 3, 4, 5, 6]) = Some [c1, c2, c3, c4, c5, c6]"
    by (simp add: s c_char_def)
  have rr: "strtol16 [c1, c2] = 16 * v1 + v2" and gg: "strtol16 [c3, c4] = 16 * v3 + v4"
    and bb: "strtol16 [c5, c6] = 16 * v5 + v6"
    using v by (simp_all add: strtol16_two_digits)
  have bounds: "0 \<le> 16 * v1 + v2" "16 * v1 + v2 < 256" "0 \<le> 16 * v3 + v4" "16 * v3 + v4 < 256"
    "0 \<le> 16 * v5 + v6" "16 * v5 + v6 < 256"
    using r by simp_all
  have bytes: "hex_byte c1 c2 = word_of_int (16 * v1 + v2)" "hex_byte c3 c4 = word_of_int (16 * v3 + v4)"
    "hex_byte c5 c6 = word_of_int (16 * v5 + v6)"
    by (simp_all only: hex_byte_def v option.sel)
  have key: "hex24_to_15 s = Inr (word_of_int (push_bit 10 (drop_bit 3 (16 * v5 + v6)))
      + word_of_int (push_bit 5 (drop_bit 3 (16 * v3 + v4))) + word_of_int (drop_bit 3 (16 * v1 + v2)))"
    unfolding hex24_to_15_def chars by (simp add: Let_def rr gg bb)
  have "s ! 1 = c1" "s ! 2 = c2" "s ! 3 = c3" "s ! 4 = c4" "s ! 5 = c5" "s ! 6 = c6"
    by (simp_all add: s)
  then show ?thesis
    by (simp only: key bytes pack_bytes [OF bounds])
qed

lemma insert_into_new_16:
  "insert_palette key (new_palette 16)
     = Inr (0, \<lparr>colors = (\<lambda>i. 0)(0 := key), used = 1, max_p = 16\<rparr>)"
  by (simp add: insert_palette_def new_palette_def palette_scan.simps)

lemma colorkey_at_index_zero_16:
  assumes "arg_palette args = 16" and "valid_colorkey (arg_colorkey args)"
    and "main_run fuel args img name = Some (Inr st')"
  shows "\<exists>key. hex24_to_15 (arg_colorkey args) = Inr key \<and> colors (color_palette st') 0 = key
    \<and> (\<exists>ps. traverse fuel img (arg_tileize args) cursor_start = Some ps
          \<and> length (emitted_indices (out st')) = length ps
          \<and> (\<forall>k<length ps. \<exists>red green blue. pixel_at img (ps ! k) = Some (red, green, blue)
                \<and> (quantize red green blue = key \<longrightarrow> emitted_indices (out st') ! k = 0)))"
proof -
  from hex24_to_15_valid [OF assms(2)] obtain key where
    key: "hex24_to_15 (arg_colorkey args) = Inr key" by blast
  let ?p1 = "\<lparr>colors = (\<lambda>i. 0)(0 := key), used = 1, max_p = 16\<rparr>"
  let ?st0 = "\<lparr>cursor = cursor_start, color_palette = ?p1, colors_this_line = 0, out = []\<rparr>"
  have run: "png2gba fuel img name 16 (arg_tileize args) ?st0 = Some (Inr st')"
    using assms(1,3) key
    by (auto simp add: main_run_def insert_into_new_16 split: option.splits)
  from run show ?thesis
  proof (rule png2gba_Inr)
    fix st1
    assume l: "png2gba_loop fuel img 16 (arg_tileize args) (?st0\<lparr>colors_this_line := 0\<rparr>)
        = Some (Inr st1)"
      and p: "color_palette st' = color_palette st1"
      and indexed: "(16::int) \<noteq> 0 \<Longrightarrow> out st' =
         palette_table (color_palette st1) 0 0
           (out st1 @ [Text ''\<newline>};\<newline>\<newline>'',
                       Text (''const unsigned short '' @ name @ ''_palette [] = {\<newline>'')])
         @ [Text ''\<newline>};\<newline>\<newline>'']"
    from loop_trace [OF l] obtain ps ws where
      t: "traverse fuel img (arg_tileize args) cursor_start = Some ps"
      and len: "length ws = length ps"
      and o1: "out st1 = layout 0 ws"
      and each: "\<forall>k<length ps. \<exists>red green blue. pixel_at img (ps ! k) = Some (red, green, blue)
           \<and> (\<exists>i pal pal'. ws ! k = Hex02X i \<and> inserts ?p1 pal
                 \<and> insert_palette (quantize red green blue) pal = Inr (i, pal')
                 \<and> inserts pal' (color_palette st1))"
      by auto
    let ?ixs = "emitted_indices ws"
    have ws: "ws = map Hex02X ?ixs"
      using each len by (intro all_indices) auto
    then have len': "length ?ixs = length ps"
      using len by (metis length_map)
    have e: "emitted_indices (out st') = ?ixs"
      using indexed
      by (simp add: o1 emitted_indices_simps emitted_indices_layout palette_table_whole)
    have "inserts ?p1 (color_palette st')"
      using loop_inserts [OF l] p by simp
    from index_stays(1) [OF insert_into_new_16 this]
    have first: "colors (color_palette st') 0 = key" by simp
    have "\<exists>red green blue. pixel_at img (ps ! k) = Some (red, green, blue)
        \<and> (quantize red green blue = key \<longrightarrow> ?ixs ! k = 0)"
      if k: "k < length ps" for k
    proof -
      from each k obtain red green blue i pal pal' where
        px: "pixel_at img (ps ! k) = Some (red, green, blue)" and w: "ws ! k = Hex02X i"
        and before: "inserts ?p1 pal"
        and ins: "insert_palette (quantize red green blue) pal = Inr (i, pal')"
        by blast
      have "ws ! k = Hex02X (?ixs ! k)"
        using ws k len' by (metis nth_map)
      with w have i: "?ixs ! k = i" by simp
      have "i = 0" if "quantize red green blue = key"
        using index_stays(2) [OF insert_into_new_16 before] ins that by simp
      with px i show ?thesis by auto
    qed
    with key first t len' e show ?thesis by auto
  qed
qed

section \<open>The colorkey when \<^verbatim>\<open>max\<close> is 0\<close>

text \<open>
  \<^verbatim>\<open>main\<close> inserts the colorkey in direct-color mode too, into a palette whose
  \<^verbatim>\<open>max\<close> is then \<^verbatim>\<open>args.palette\<close> = 0: the insertion ends the run, so \<^verbatim>\<open>png2gba\<close> is
  reached for 16 colors only.
\<close>

lemma direct_color_main_overflows:
  assumes "arg_palette args = 0" and "arg_input_file_name args \<noteq> None"
    and "hex24_to_15 (arg_colorkey args) = Inr key"
  shows "main_run fuel args img name = Some (Inl PaletteOverflow)"
  using assms
  by (simp add: main_run_def verify_arguments_def insert_palette_def new_palette_def
      palette_scan.simps)

text \<open>
  C6. For \<^verbatim>\<open>-p256\<close> and the colorkey \<^verbatim>\<open>#ff00ff\<close>, whatever the image, the run ends in
  \<open>PaletteOverflow\<close> at the insertion of the colorkey, before any pixel is read:
  \<^verbatim>\<open>palette.max\<close> is 0 (see C4), so the colorkey is not inserted at index 0.
\<close>

theorem colorkey_insert_fails_for_256:
  "main_run fuel (args_16\<lparr>arg_palette := 256\<rparr>) img name = Some (Inl PaletteOverflow)"
  by (simp add: main_run_def verify_arguments_def args_16_def key_ff00ff insert_palette_def
      new_palette_def palette_scan.simps)

end
